theory Spec2Isabelle
  imports Main
begin

section \<open>Data model\<close>

text \<open>
  The component relay consists of three JavaScript programs: the Registry
  (\<^verbatim>\<open>ComponentRegistry\<close>, with its REST and GraphQL front ends), the Daemon
  (\<^verbatim>\<open>ComponentDaemon\<close>, a WebSocket client of the Registry and a GraphQL server for
  renderers) and the Renderer (\<^verbatim>\<open>GraphQLWebSocketClient\<close> and
  \<^verbatim>\<open>ComponentDisplaySystem\<close> in \<^verbatim>\<open>App.js\<close>).

  JSON documents are opaque to the relay; only the truthiness of a value is ever
  inspected (\<^verbatim>\<open>if (message.payload?.errors)\<close>). Numbers are restricted to integers
  here, which does not change which values are truthy.
\<close>

datatype json =
    JNull
  | JBool bool
  | JNum int
  | JStr string
  | JArr "json list"
  | JObj "(string \<times> json) list"

fun truthy :: "json \<Rightarrow> bool" where
  "truthy JNull = False"
| "truthy (JBool b) = b"
| "truthy (JNum n) = (n \<noteq> 0)"
| "truthy (JStr s) = (s \<noteq> [])"
| "truthy (JArr xs) = True"
| "truthy (JObj kvs) = True"

text \<open>
  A component is the object literal built in \<^verbatim>\<open>renderComponent\<close>:
  \<^verbatim>\<open>{ id, type, data, createdAt }\<close>. The REST handler passes \<^verbatim>\<open>type\<close> and
  \<^verbatim>\<open>data\<close> on exactly as they were destructured from the request body, so either
  may be \<^verbatim>\<open>undefined\<close> (\<open>None\<close>) or any JSON value.
\<close>

record component =
  id' :: string
  type :: "json option"
  data :: "json option"
  createdAt :: string

subsection \<open>JavaScript \<^verbatim>\<open>Map\<close>\<close>

text \<open>
  \<^verbatim>\<open>Map.prototype.set\<close> overwrites the value of a key that is present and leaves
  the key at its original position; a new key goes to the end.
  \<^verbatim>\<open>Array.from(map.values())\<close> lists the values in that order.
\<close>

type_synonym ('k, 'v) jsmap = "('k \<times> 'v) list"

fun map_set :: "'k \<Rightarrow> 'v \<Rightarrow> ('k, 'v) jsmap \<Rightarrow> ('k, 'v) jsmap" where
  "map_set k v [] = [(k, v)]"
| "map_set k v ((k', v') # m) =
     (if k' = k then (k, v) # m else (k', v') # map_set k v m)"

definition map_values :: "('k, 'v) jsmap \<Rightarrow> 'v list" where
  "map_values m = map snd m"

definition map_delete :: "'k \<Rightarrow> ('k, 'v) jsmap \<Rightarrow> ('k, 'v) jsmap" where
  "map_delete k m = filter (\<lambda>kv. fst kv \<noteq> k) m"

subsection \<open>The in-memory \<^verbatim>\<open>PubSub\<close>\<close>

text \<open>
  Modelled from the package, not from the sources of this repository: both
  servers create their broker with \<^verbatim>\<open>new PubSub()\<close> from the dependency
  \<^verbatim>\<open>graphql-subscriptions\<close>, whose code is not part of the repository. What the
  repository uses of it is \<^verbatim>\<open>publish(trigger, payload)\<close> and
  \<^verbatim>\<open>asyncIterableIterator(trigger)\<close>; the subscription server that consumes the
  iterator calls its \<^verbatim>\<open>next()\<close>. The definitions of this subsection follow the
  package:

  \<^item> an iterator is created with an empty \<^verbatim>\<open>pullQueue\<close> and an empty \<^verbatim>\<open>pushQueue\<close>
    and is not yet known to the broker;
  \<^item> the first \<^verbatim>\<open>next()\<close> attaches it to the broker as a listener on its trigger;
    every \<^verbatim>\<open>next()\<close> then takes the oldest queued payload, or, if the queue is
    empty, leaves a pending pull;
  \<^item> \<^verbatim>\<open>publish\<close> emits the payload to the iterators of the trigger; a listener
    hands it to its oldest pending pull or, if there is none, pushes it onto
    its \<^verbatim>\<open>pushQueue\<close>, a plain array.

  The constructor is called without options; the repository configures no
  capacity and keeps no counter of discarded payloads anywhere. The pending
  pulls are opaque callbacks, so only their number is kept. \<open>yielded\<close> is the
  trace of the payloads handed to the consumer, and \<open>emitted\<close> the trace of the
  \<^verbatim>\<open>publish\<close> calls, kept so that a publish without a listener is still
  observable. \<^verbatim>\<open>return()\<close>, by which a consumer ends an iterator, is not
  modelled.
\<close>

record 'a iterator =
  trigger :: string
  listening :: bool
  pullQueue :: nat
  pushQueue :: "'a list"
  yielded :: "'a list"

record 'a PubSub =
  iterators :: "'a iterator list"
  emitted :: "(string \<times> 'a) list"

definition new_PubSub :: "'a PubSub" where
  \<comment> \<open>Modelled from the package: \<^verbatim>\<open>new PubSub()\<close>.\<close>
  "new_PubSub = \<lparr>iterators = [], emitted = []\<rparr>"

definition pushValue :: "string \<Rightarrow> 'a \<Rightarrow> 'a iterator \<Rightarrow> 'a iterator" where
  \<comment> \<open>Modelled from the package: the listener an attached iterator registers.\<close>
  "pushValue t p it =
     (if listening it \<and> trigger it = t then
        (if pullQueue it \<noteq> 0
         then it\<lparr>pullQueue := pullQueue it - 1, yielded := yielded it @ [p]\<rparr>
         else it\<lparr>pushQueue := pushQueue it @ [p]\<rparr>)
      else it)"

definition publish :: "string \<Rightarrow> 'a \<Rightarrow> 'a PubSub \<Rightarrow> 'a PubSub" where
  \<comment> \<open>Modelled from the package: \<^verbatim>\<open>PubSub.publish\<close>.\<close>
  "publish t p ps =
     ps\<lparr>iterators := map (pushValue t p) (iterators ps),
        emitted := emitted ps @ [(t, p)]\<rparr>"

text \<open>The new iterator is returned as its index in the list of iterators.\<close>

definition asyncIterableIterator :: "string \<Rightarrow> 'a PubSub \<Rightarrow> nat \<times> 'a PubSub" where
  \<comment> \<open>Modelled from the package: \<^verbatim>\<open>PubSub.asyncIterableIterator\<close>.\<close>
  "asyncIterableIterator t ps =
     (length (iterators ps),
      ps\<lparr>iterators := iterators ps @
           [\<lparr>trigger = t, listening = False, pullQueue = 0, pushQueue = [], yielded = []\<rparr>]\<rparr>)"

definition pullValue :: "'a iterator \<Rightarrow> 'a iterator" where
  \<comment> \<open>Modelled from the package: the iterator's \<^verbatim>\<open>pullValue\<close>.\<close>
  "pullValue it =
     (case pushQueue it of
        [] \<Rightarrow> it\<lparr>pullQueue := pullQueue it + 1\<rparr>
      | x # xs \<Rightarrow> it\<lparr>pushQueue := xs, yielded := yielded it @ [x]\<rparr>)"

definition iterator_next :: "'a iterator \<Rightarrow> 'a iterator" where
  \<comment> \<open>Modelled from the package: the iterator's \<^verbatim>\<open>next()\<close>.\<close>
  "iterator_next it = pullValue (it\<lparr>listening := True\<rparr>)"

text \<open>The consumer of the iterator with index \<open>i\<close> calls \<^verbatim>\<open>next()\<close>.\<close>

definition pull :: "nat \<Rightarrow> 'a PubSub \<Rightarrow> 'a PubSub" where
  "pull i ps =
     (if i < length (iterators ps)
      then ps\<lparr>iterators := (iterators ps)[i := iterator_next (iterators ps ! i)]\<rparr>
      else ps)"

text \<open>
  The queue bound the specification describes, in its own words: when the
  queue already holds \<open>cap\<close> events the oldest is discarded and the new one is
  still enqueued. It is used only to compare the broker with.
\<close>

definition spec_enqueue_drop_oldest :: "nat \<Rightarrow> 'a \<Rightarrow> 'a list \<Rightarrow> 'a list" where
  "spec_enqueue_drop_oldest cap p q =
     (if cap \<le> length q then tl q @ [p] else q @ [p])"

section \<open>The Registry\<close>

text \<open>
  \<^verbatim>\<open>ComponentRegistry\<close> holds the component history and the broker. The payload
  of a publish is an object with a single field, modelled as the pair of the
  field name and the component.
\<close>

type_synonym update = "string \<times> component"

record registry =
  components :: "(string, component) jsmap"
  pubsub :: "update PubSub"

definition new_ComponentRegistry :: registry where
  "new_ComponentRegistry = \<lparr>components = [], pubsub = new_PubSub\<rparr>"

text \<open>
  \<^verbatim>\<open>uuidv4()\<close> and \<^verbatim>\<open>new Date().toISOString()\<close> read the environment; their
  results are the first two arguments.
\<close>

definition renderComponent ::
  "string \<Rightarrow> string \<Rightarrow> json option \<Rightarrow> json option \<Rightarrow> 'a registry_scheme
     \<Rightarrow> component \<times> 'a registry_scheme" where
  "renderComponent uuid now ty dat reg =
     (let component = \<lparr>id' = uuid, type = ty, data = dat, createdAt = now\<rparr>;
          reg1 = reg\<lparr>components := map_set (id' component) component (components reg)\<rparr>;
          reg2 = reg1\<lparr>pubsub :=
                   publish ''COMPONENT_UPDATE'' (''componentUpdate'', component) (pubsub reg1)\<rparr>
      in (component, reg2))"

definition getComponents :: "'a registry_scheme \<Rightarrow> component list" where
  "getComponents reg = map_values (components reg)"

text \<open>The subscription resolver: \<^verbatim>\<open>registry.pubsub.asyncIterableIterator('COMPONENT_UPDATE')\<close>.\<close>

definition componentUpdate_subscribe :: "registry \<Rightarrow> nat \<times> registry" where
  "componentUpdate_subscribe reg =
     (let (it, ps) = asyncIterableIterator ''COMPONENT_UPDATE'' (pubsub reg)
      in (it, reg\<lparr>pubsub := ps\<rparr>))"

text \<open>
  \<^verbatim>\<open>POST /render\<close>. \<^verbatim>\<open>express.json()\<close> has parsed the body into an object;
  the handler destructures \<^verbatim>\<open>type\<close> and \<^verbatim>\<open>data\<close> from it, calls
  \<^verbatim>\<open>renderComponent\<close> and answers \<^verbatim>\<open>{ success: true, component }\<close>.
\<close>

record render_request =
  req_type :: "json option"
  req_data :: "json option"

record render_response =
  success :: bool
  res_component :: component

definition post_render ::
  "string \<Rightarrow> string \<Rightarrow> render_request \<Rightarrow> registry \<Rightarrow> render_response \<times> registry" where
  "post_render uuid now req reg =
     (let (component, reg') = renderComponent uuid now (req_type req) (req_data req) reg
      in (\<lparr>success = True, res_component = component\<rparr>, reg'))"

text \<open>
  \<^verbatim>\<open>POST /test-subscription\<close>, the debug endpoint: it publishes an object built in
  place, whose id is \<^verbatim>\<open>'test-' + Date.now()\<close>. \<open>ms\<close> is the decimal rendering
  of the millisecond clock and \<open>now\<close> the ISO time.
\<close>

definition post_test_subscription :: "string \<Rightarrow> string \<Rightarrow> registry \<Rightarrow> registry" where
  "post_test_subscription ms now reg =
     reg\<lparr>pubsub :=
       publish ''COMPONENT_UPDATE''
         (''componentUpdate'',
          \<lparr>id' = ''test-'' @ ms,
           type = Some (JStr ''NOTIFICATION''),
           data = Some (JObj [(''message'', JStr ''Test message from debug endpoint'')]),
           createdAt = now\<rparr>)
         (pubsub reg)\<rparr>"

section \<open>WebSocket transport, frames and messages\<close>

datatype ready_state = CONNECTING | OPEN | CLOSING | CLOSED

record websocket =
  readyState :: ready_state

text \<open>\<^verbatim>\<open>new WebSocket(url, 'graphql-ws')\<close>: the socket starts out connecting.\<close>

definition new_WebSocket :: websocket where
  "new_WebSocket = \<lparr>readyState = CONNECTING\<rparr>"

text \<open>\<^verbatim>\<open>close()\<close> starts the closing handshake; on a closing or closed socket it does nothing.\<close>

definition ws_close :: "websocket \<Rightarrow> websocket" where
  "ws_close w =
     (if readyState w = OPEN \<or> readyState w = CONNECTING
      then w\<lparr>readyState := CLOSING\<rparr> else w)"

text \<open>
  The frames a client sends: \<^verbatim>\<open>{type: 'connection_init'}\<close>,
  \<^verbatim>\<open>{id, type: 'start', payload: {query}}\<close> (the query is given by the name of the
  subscription field it selects) and \<^verbatim>\<open>{id, type: 'stop'}\<close>.
\<close>

datatype frame =
    Connection_init
  | Start string string
  | Stop string

text \<open>
  A socket puts a frame on the wire only while it is open. \<open>transmit\<close> extends
  the trace of transmitted frames accordingly.
\<close>

definition transmit :: "websocket \<Rightarrow> frame \<Rightarrow> frame list \<Rightarrow> frame list" where
  "transmit w f tr = (if readyState w = OPEN then tr @ [f] else tr)"

text \<open>
  A parsed server message: \<^verbatim>\<open>message.type\<close>, \<^verbatim>\<open>message.id\<close> and
  \<^verbatim>\<open>message.payload\<close> with its optional \<^verbatim>\<open>errors\<close> and \<^verbatim>\<open>data\<close>.
\<close>

record payload =
  p_errors :: "json option"
  p_data :: "(string \<times> component) list option"

record message =
  m_type :: string
  m_id :: "string option"
  m_payload :: "payload option"

text \<open>\<^verbatim>\<open>message.payload?.errors\<close> as a condition.\<close>

definition payload_errors :: "message \<Rightarrow> bool" where
  "payload_errors m =
     (case m_payload m of
        None \<Rightarrow> False
      | Some p \<Rightarrow> (case p_errors p of None \<Rightarrow> False | Some e \<Rightarrow> truthy e))"

text \<open>\<^verbatim>\<open>message.payload?.data?.f\<close> for a field \<open>f\<close>.\<close>

definition payload_data :: "string \<Rightarrow> message \<Rightarrow> component option" where
  "payload_data f m =
     (case m_payload m of
        None \<Rightarrow> None
      | Some p \<Rightarrow> (case p_data p of None \<Rightarrow> None | Some d \<Rightarrow> map_of d f))"

text \<open>
  What the environment does to a client: the events of its current socket and
  the expiry of one of its pending timers (given by its position).
\<close>

datatype event =
    Ev_open
  | Ev_message message
  | Ev_close
  | Ev_error
  | Ev_timeout nat

section \<open>The Daemon\<close>

text \<open>
  \<^verbatim>\<open>ComponentDaemon\<close> has the Registry's two fields and \<^verbatim>\<open>registryWs\<close>. The
  remaining fields are traces of its effects: the frames transmitted to the
  Registry, the delays of the timers that are pending, and the delays of all
  timers ever set.
\<close>

record daemon = registry +
  registryWs :: "websocket option"
  d_wire :: "frame list"
  d_timers :: "nat list"
  d_scheduled :: "nat list"

definition new_ComponentDaemon :: daemon where
  "new_ComponentDaemon =
     \<lparr>components = [], pubsub = new_PubSub, registryWs = None,
      d_wire = [], d_timers = [], d_scheduled = []\<rparr>"

definition handleComponentFromRegistry :: "component \<Rightarrow> daemon \<Rightarrow> daemon" where
  "handleComponentFromRegistry component d =
     (let d1 = d\<lparr>components := map_set (id' component) component (components d)\<rparr>
      in d1\<lparr>pubsub :=
              publish ''RENDERER_UPDATE'' (''rendererUpdate'', component) (pubsub d1)\<rparr>)"

definition connectToRegistry :: "daemon \<Rightarrow> daemon" where
  "connectToRegistry d = d\<lparr>registryWs := Some new_WebSocket\<rparr>"

definition registryWs_send :: "frame \<Rightarrow> daemon \<Rightarrow> daemon" where
  "registryWs_send f d =
     (case registryWs d of
        None \<Rightarrow> d
      | Some w \<Rightarrow> d\<lparr>d_wire := transmit w f (d_wire d)\<rparr>)"

definition d_onopen :: "daemon \<Rightarrow> daemon" where
  "d_onopen d = registryWs_send Connection_init d"

definition d_onmessage :: "message \<Rightarrow> daemon \<Rightarrow> daemon" where
  "d_onmessage m d =
     (let d1 = (if m_type m = ''connection_ack''
                then registryWs_send (Start ''registry-sub'' ''componentUpdate'') d
                else d);
          d2 = (if m_type m = ''data''
                then (if payload_errors m then d1
                      else (case payload_data ''componentUpdate'' m of
                              Some component \<Rightarrow> handleComponentFromRegistry component d1
                            | None \<Rightarrow> d1))
                else d1)
      in d2)"

text \<open>\<^verbatim>\<open>setTimeout(() => this.connectToRegistry(), 2000)\<close>\<close>

definition d_onclose :: "daemon \<Rightarrow> daemon" where
  "d_onclose d =
     d\<lparr>d_timers := d_timers d @ [2000], d_scheduled := d_scheduled d @ [2000]\<rparr>"

definition d_onerror :: "daemon \<Rightarrow> daemon" where
  "d_onerror d = d"

text \<open>
  One event at the Daemon. The socket reports its new state before the handler
  runs; without a socket there is no handler to run. An expired timer leaves
  the pending list and calls \<^verbatim>\<open>connectToRegistry\<close>.
\<close>

fun daemon_step :: "event \<Rightarrow> daemon \<Rightarrow> daemon" where
  "daemon_step Ev_open d =
     (case registryWs d of
        None \<Rightarrow> d
      | Some w \<Rightarrow> d_onopen (d\<lparr>registryWs := Some (w\<lparr>readyState := OPEN\<rparr>)\<rparr>))"
| "daemon_step (Ev_message m) d =
     (case registryWs d of None \<Rightarrow> d | Some w \<Rightarrow> d_onmessage m d)"
| "daemon_step Ev_close d =
     (case registryWs d of
        None \<Rightarrow> d
      | Some w \<Rightarrow> d_onclose (d\<lparr>registryWs := Some (w\<lparr>readyState := CLOSED\<rparr>)\<rparr>))"
| "daemon_step Ev_error d =
     (case registryWs d of None \<Rightarrow> d | Some w \<Rightarrow> d_onerror d)"
| "daemon_step (Ev_timeout i) d =
     (if i < length (d_timers d)
      then connectToRegistry
             (d\<lparr>d_timers := take i (d_timers d) @ drop (Suc i) (d_timers d)\<rparr>)
      else d)"

fun daemon_run :: "event list \<Rightarrow> daemon \<Rightarrow> daemon" where
  "daemon_run [] d = d"
| "daemon_run (e # es) d = daemon_run es (daemon_step e d)"

section \<open>The Renderer's client\<close>

text \<open>
  \<^verbatim>\<open>GraphQLWebSocketClient\<close>. A subscription holds only its callback, which is
  always the display system's \<^verbatim>\<open>handleComponentFromDaemon\<close>; \<open>delivered\<close> is the
  trace of the components the callback was called with. \<open>wire\<close>, \<open>timers\<close> and
  \<open>scheduled\<close> are traces as for the Daemon.
\<close>

record client =
  ws :: "websocket option"
  subscriptions :: "(string, unit) jsmap"
  connected :: bool
  reconnectAttempts :: nat
  maxReconnectAttempts :: nat
  wire :: "frame list"
  timers :: "nat list"
  scheduled :: "nat list"
  delivered :: "component list"

definition new_GraphQLWebSocketClient :: client where
  "new_GraphQLWebSocketClient =
     \<lparr>ws = None, subscriptions = [], connected = False, reconnectAttempts = 0,
      maxReconnectAttempts = 5, wire = [], timers = [], scheduled = [], delivered = []\<rparr>"

definition connect :: "client \<Rightarrow> client" where
  "connect c = c\<lparr>ws := Some new_WebSocket\<rparr>"

definition send :: "frame \<Rightarrow> client \<Rightarrow> client" where
  "send f c =
     (case ws c of
        None \<Rightarrow> c
      | Some w \<Rightarrow> (if readyState w = OPEN then c\<lparr>wire := transmit w f (wire c)\<rparr> else c))"

definition onopen :: "client \<Rightarrow> client" where
  "onopen c = send Connection_init (c\<lparr>connected := True, reconnectAttempts := 0\<rparr>)"

definition startSubscription :: "client \<Rightarrow> client" where
  "startSubscription c = send (Start ''renderer-subscription'' ''rendererUpdate'') c"

definition map_get :: "'k option \<Rightarrow> ('k, 'v) jsmap \<Rightarrow> 'v option" where
  "map_get k m = (case k of None \<Rightarrow> None | Some k' \<Rightarrow> map_of m k')"

definition handleMessage :: "message \<Rightarrow> client \<Rightarrow> client" where
  "handleMessage m c =
     (if m_type m = ''connection_ack'' then startSubscription c
      else if m_type m = ''data'' then
        (case (map_get (m_id m) (subscriptions c), payload_data ''rendererUpdate'' m) of
           (Some subscription, Some component) \<Rightarrow> c\<lparr>delivered := delivered c @ [component]\<rparr>
         | _ \<Rightarrow> c)
      else c)"

definition attemptReconnect :: "client \<Rightarrow> client" where
  "attemptReconnect c =
     (if reconnectAttempts c < maxReconnectAttempts c then
        (let c1 = c\<lparr>reconnectAttempts := reconnectAttempts c + 1\<rparr>
         in c1\<lparr>timers := timers c1 @ [2000 * reconnectAttempts c1],
               scheduled := scheduled c1 @ [2000 * reconnectAttempts c1]\<rparr>)
      else c)"

definition onclose :: "client \<Rightarrow> client" where
  "onclose c = attemptReconnect (c\<lparr>connected := False\<rparr>)"

definition onerror :: "client \<Rightarrow> client" where
  "onerror c = c"

definition disconnect :: "client \<Rightarrow> client" where
  "disconnect c =
     (case ws c of None \<Rightarrow> c | Some w \<Rightarrow> c\<lparr>ws := Some (ws_close w)\<rparr>)"

text \<open>\<^verbatim>\<open>subscribe(callback)\<close> registers the callback and returns the closure \<open>unsubscribe\<close>.\<close>

definition subscribe :: "client \<Rightarrow> client" where
  "subscribe c = c\<lparr>subscriptions := map_set ''renderer-subscription'' () (subscriptions c)\<rparr>"

definition unsubscribe :: "client \<Rightarrow> client" where
  "unsubscribe c =
     (let c1 = c\<lparr>subscriptions := map_delete ''renderer-subscription'' (subscriptions c)\<rparr>
      in if connected c1 then send (Stop ''renderer-subscription'') c1 else c1)"

fun client_step :: "event \<Rightarrow> client \<Rightarrow> client" where
  "client_step Ev_open c =
     (case ws c of
        None \<Rightarrow> c
      | Some w \<Rightarrow> onopen (c\<lparr>ws := Some (w\<lparr>readyState := OPEN\<rparr>)\<rparr>))"
| "client_step (Ev_message m) c =
     (case ws c of None \<Rightarrow> c | Some w \<Rightarrow> handleMessage m c)"
| "client_step Ev_close c =
     (case ws c of
        None \<Rightarrow> c
      | Some w \<Rightarrow> onclose (c\<lparr>ws := Some (w\<lparr>readyState := CLOSED\<rparr>)\<rparr>))"
| "client_step Ev_error c =
     (case ws c of None \<Rightarrow> c | Some w \<Rightarrow> onerror c)"
| "client_step (Ev_timeout i) c =
     (if i < length (timers c)
      then connect (c\<lparr>timers := take i (timers c) @ drop (Suc i) (timers c)\<rparr>)
      else c)"

fun client_run :: "event list \<Rightarrow> client \<Rightarrow> client" where
  "client_run [] c = c"
| "client_run (e # es) c = client_run es (client_step e c)"

text \<open>
  \<^verbatim>\<open>ComponentDisplaySystem\<close>, the owner of the client: \<open>subscriptionCleanup\<close> tells
  whether the closure returned by \<^verbatim>\<open>subscribe\<close> has been stored.
  \<open>display_connected\<close> is the part of \<^verbatim>\<open>connect()\<close> that runs once the client's
  promise has resolved.
\<close>

record display =
  graphqlClient :: client
  subscriptionCleanup :: bool

definition display_connected :: "display \<Rightarrow> display" where
  "display_connected ds =
     ds\<lparr>graphqlClient := subscribe (graphqlClient ds), subscriptionCleanup := True\<rparr>"

definition display_disconnect :: "display \<Rightarrow> display" where
  "display_disconnect ds =
     (let ds1 = (if subscriptionCleanup ds
                 then ds\<lparr>graphqlClient := unsubscribe (graphqlClient ds)\<rparr> else ds)
      in ds1\<lparr>graphqlClient := disconnect (graphqlClient ds1)\<rparr>)"

section \<open>Sequences of publishes\<close>

text \<open>
  A call of \<^verbatim>\<open>renderComponent\<close> is given by what the environment and the caller
  supply: the uuid, the time, the type and the data. \<open>minted\<close> is the component
  the call builds; \<open>render_all\<close> performs a sequence of calls at the Registry and
  \<open>forward_all\<close> a sequence of \<^verbatim>\<open>handleComponentFromRegistry\<close> calls at the Daemon.
\<close>

type_synonym render_call = "string \<times> string \<times> json option \<times> json option"

definition minted :: "render_call \<Rightarrow> component" where
  "minted call = (case call of (uuid, now, ty, dat) \<Rightarrow>
      \<lparr>id' = uuid, type = ty, data = dat, createdAt = now\<rparr>)"

definition render_all :: "render_call list \<Rightarrow> registry \<Rightarrow> registry" where
  "render_all calls reg =
     fold (\<lambda>(uuid, now, ty, dat) r. snd (renderComponent uuid now ty dat r)) calls reg"

definition forward_all :: "component list \<Rightarrow> daemon \<Rightarrow> daemon" where
  "forward_all cs d = fold handleComponentFromRegistry cs d"

text \<open>
  The order in which keys were first inserted, the latest component published
  under an id, and the invariant that every entry is stored under its own id.
\<close>

definition insertion_order :: "'a list \<Rightarrow> 'a list" where
  "insertion_order xs = rev (remdups (rev xs))"

fun latest :: "string \<Rightarrow> component list \<Rightarrow> component option" where
  "latest k [] = None"
| "latest k (c # cs) =
     (case latest k cs of
        Some c' \<Rightarrow> Some c'
      | None \<Rightarrow> (if id' c = k then Some c else None))"

definition set_all :: "component list \<Rightarrow> (string, component) jsmap \<Rightarrow> (string, component) jsmap" where
  "set_all cs m = fold (\<lambda>c. map_set (id' c) c) cs m"

definition keyed :: "(string, component) jsmap \<Rightarrow> bool" where
  "keyed m = (distinct (map fst m) \<and> map fst m = map id' (map snd m))"

section \<open>Observing the clients\<close>

text \<open>
  \<^verbatim>\<open>start()\<close> of the Daemon calls \<^verbatim>\<open>connectToRegistry()\<close>. The predicates below say
  whether a client's current socket is open, classify frames and events, and
  list the components that arrive at the Daemon in \<^verbatim>\<open>data\<close> messages that carry
  no errors (the messages its handler passes to \<^verbatim>\<open>handleComponentFromRegistry\<close>).
  \<open>forwarded\<close> is the publish the Daemon makes for a component.
\<close>

definition start :: "daemon \<Rightarrow> daemon" where
  "start d = connectToRegistry d"

definition socket_open :: "client \<Rightarrow> bool" where
  "socket_open c = (case ws c of None \<Rightarrow> False | Some w \<Rightarrow> readyState w = OPEN)"

definition registry_socket_open :: "daemon \<Rightarrow> bool" where
  "registry_socket_open d = (case registryWs d of None \<Rightarrow> False | Some w \<Rightarrow> readyState w = OPEN)"

fun is_init :: "frame \<Rightarrow> bool" where
  "is_init Connection_init = True"
| "is_init _ = False"

fun is_start :: "frame \<Rightarrow> bool" where
  "is_start (Start i q) = True"
| "is_start _ = False"

fun is_stop :: "frame \<Rightarrow> bool" where
  "is_stop (Stop i) = True"
| "is_stop _ = False"

fun is_open :: "event \<Rightarrow> bool" where
  "is_open Ev_open = True"
| "is_open _ = False"

fun is_ack :: "event \<Rightarrow> bool" where
  "is_ack (Ev_message m) = (m_type m = ''connection_ack'')"
| "is_ack _ = False"

fun received :: "event list \<Rightarrow> component list" where
  "received [] = []"
| "received (Ev_message m # es) =
     (if m_type m = ''data'' \<and> \<not> payload_errors m
      then (case payload_data ''componentUpdate'' m of Some c \<Rightarrow> [c] | None \<Rightarrow> [])
      else []) @ received es"
| "received (e # es) = received es"

definition forwarded :: "component \<Rightarrow> string \<times> update" where
  "forwarded c = (''RENDERER_UPDATE'', (''rendererUpdate'', c))"

text \<open>
  A \<^verbatim>\<open>data\<close> message of subscription \<open>i\<close> with the given \<^verbatim>\<open>errors\<close> and \<^verbatim>\<open>data\<close>, and
  the message by which the Registry delivers an event to the Daemon:
  \<^verbatim>\<open>{type: 'data', id, payload: {data: {componentUpdate: c}}}\<close>. The Registry's
  schema declares \<^verbatim>\<open>componentUpdate\<close> and every field of \<^verbatim>\<open>Component\<close> non-null, so
  a result of the subscription has either the component or \<^verbatim>\<open>errors\<close>, never both.
\<close>

definition data_message ::
  "string \<Rightarrow> json option \<Rightarrow> (string \<times> component) list option \<Rightarrow> message" where
  "data_message i errs dat =
     \<lparr>m_type = ''data'', m_id = Some i, m_payload = Some \<lparr>p_errors = errs, p_data = dat\<rparr>\<rparr>"

definition event_message :: "string \<Rightarrow> component \<Rightarrow> message" where
  "event_message i c = data_message i None (Some [(''componentUpdate'', c)])"

section \<open>Scenarios of connection loss\<close>

text \<open>
  A connection attempt that fails shows as an \<^verbatim>\<open>error\<close> event followed by a
  \<^verbatim>\<open>close\<close> event on the socket; the next attempt starts when the timer set by
  the close handler expires. \<open>failures n\<close> is \<open>n\<close> such rounds in a row.
\<close>

fun failures :: "nat \<Rightarrow> event list" where
  "failures 0 = []"
| "failures (Suc n) = [Ev_error, Ev_close, Ev_timeout 0] @ failures n"

text \<open>
  The acknowledgment message, and a Renderer client that has connected, has been
  acknowledged and has a callback registered.
\<close>

definition connection_ack :: message where
  "connection_ack = \<lparr>m_type = ''connection_ack'', m_id = None, m_payload = None\<rparr>"

definition subscribed_client :: client where
  "subscribed_client =
     subscribe (client_run [Ev_open, Ev_message connection_ack]
                  (connect new_GraphQLWebSocketClient))"

text \<open>The delays of the first \<open>n\<close> attempts under the policy \<open>base * attempt\<close>.\<close>

definition linear_backoff :: "nat \<Rightarrow> nat list" where
  "linear_backoff n = map (\<lambda>k. 2000 * k) [1..<Suc n]"

definition backoff_inv :: "client \<Rightarrow> bool" where
  "backoff_inv c =
     (scheduled c = linear_backoff (reconnectAttempts c)
      \<and> reconnectAttempts c \<le> maxReconnectAttempts c)"

section \<open>Subscribers and their queues\<close>

text \<open>
  The Daemon's subscription resolver:
  \<^verbatim>\<open>daemon.pubsub.asyncIterableIterator('RENDERER_UPDATE')\<close>.
\<close>

definition rendererUpdate_subscribe :: "daemon \<Rightarrow> nat \<times> daemon" where
  "rendererUpdate_subscribe d =
     (let (it, ps) = asyncIterableIterator ''RENDERER_UPDATE'' (pubsub d)
      in (it, d\<lparr>pubsub := ps\<rparr>))"

text \<open>
  What a broker goes through: publishes, new iterators and pulls by the
  consumers. \<open>published_on t\<close> lists the payloads published on a trigger, and
  \<open>after_first_pull i\<close> is what follows the first pull of iterator \<open>i\<close>.
\<close>

datatype 'a broker_op =
    Publish string 'a
  | Iterate string
  | Pull nat

fun broker_step :: "'a broker_op \<Rightarrow> 'a PubSub \<Rightarrow> 'a PubSub" where
  "broker_step (Publish t p) ps = publish t p ps"
| "broker_step (Iterate t) ps = snd (asyncIterableIterator t ps)"
| "broker_step (Pull i) ps = pull i ps"

fun broker_run :: "'a broker_op list \<Rightarrow> 'a PubSub \<Rightarrow> 'a PubSub" where
  "broker_run [] ps = ps"
| "broker_run (op # ops) ps = broker_run ops (broker_step op ps)"

fun published_on :: "string \<Rightarrow> 'a broker_op list \<Rightarrow> 'a list" where
  "published_on t [] = []"
| "published_on t (Publish t' p # ops) =
     (if t' = t then p # published_on t ops else published_on t ops)"
| "published_on t (op # ops) = published_on t ops"

fun after_first_pull :: "nat \<Rightarrow> 'a broker_op list \<Rightarrow> 'a broker_op list" where
  "after_first_pull i [] = []"
| "after_first_pull i (Pull j # ops) = (if j = i then ops else after_first_pull i ops)"
| "after_first_pull i (op # ops) = after_first_pull i ops"

text \<open>
  The queue of the iterator with a given index (the index of an existing
  iterator), and everything the iterator has received so far: what its
  consumer has been handed, followed by what is still queued.
\<close>

definition queue_of :: "nat \<Rightarrow> 'a PubSub \<Rightarrow> 'a list" where
  "queue_of i ps = pushQueue (iterators ps ! i)"

definition seen :: "nat \<Rightarrow> 'a PubSub \<Rightarrow> 'a list" where
  "seen i ps = yielded (iterators ps ! i) @ pushQueue (iterators ps ! i)"

text \<open>
  An iterator that is attached to the broker as a listener on trigger \<open>t\<close>. A
  pull stays pending only while there is nothing queued.
\<close>

definition attached :: "string \<Rightarrow> nat \<Rightarrow> 'a PubSub \<Rightarrow> bool" where
  "attached t i ps =
     (i < length (iterators ps)
      \<and> listening (iterators ps ! i)
      \<and> trigger (iterators ps ! i) = t
      \<and> (pullQueue (iterators ps ! i) = 0 \<or> pushQueue (iterators ps ! i) = []))"

text \<open>
  What reaches the Registry's broker: \<^verbatim>\<open>renderComponent\<close> calls (from
  \<^verbatim>\<open>POST /render\<close>, the mutation or the start-up timer), requests to the debug
  endpoint, subscriptions through the resolver, and pulls by the subscription
  server. \<open>broker_op_of\<close> is what each of them does to the broker.
\<close>

definition test_component :: "string \<Rightarrow> string \<Rightarrow> component" where
  "test_component ms now =
     \<lparr>id' = ''test-'' @ ms,
      type = Some (JStr ''NOTIFICATION''),
      data = Some (JObj [(''message'', JStr ''Test message from debug endpoint'')]),
      createdAt = now\<rparr>"

datatype registry_op =
    Render render_call
  | Test_subscription string string
  | Subscribe
  | Next nat

fun registry_step :: "registry_op \<Rightarrow> registry \<Rightarrow> registry" where
  "registry_step (Render call) r =
     (case call of (uuid, now, ty, dat) \<Rightarrow> snd (renderComponent uuid now ty dat r))"
| "registry_step (Test_subscription ms now) r = post_test_subscription ms now r"
| "registry_step Subscribe r = snd (componentUpdate_subscribe r)"
| "registry_step (Next i) r = r\<lparr>pubsub := pull i (pubsub r)\<rparr>"

fun registry_run :: "registry_op list \<Rightarrow> registry \<Rightarrow> registry" where
  "registry_run [] r = r"
| "registry_run (op # ops) r = registry_run ops (registry_step op r)"

fun broker_op_of :: "registry_op \<Rightarrow> update broker_op" where
  "broker_op_of (Render call) = Publish ''COMPONENT_UPDATE'' (''componentUpdate'', minted call)"
| "broker_op_of (Test_subscription ms now) =
     Publish ''COMPONENT_UPDATE'' (''componentUpdate'', test_component ms now)"
| "broker_op_of Subscribe = Iterate ''COMPONENT_UPDATE''"
| "broker_op_of (Next i) = Pull i"

text \<open>
  A subscriber that falls behind: it subscribes to a fresh Registry and its
  consumer pulls once; then 257 components are rendered before the consumer
  pulls again (as a single mutation document with that many aliased
  \<^verbatim>\<open>renderComponent\<close> fields does). The first component goes to the pending
  pull, the other 256 are queued. \<open>nth_call\<close> gives the calls distinct ids.
\<close>

definition nth_call :: "nat \<Rightarrow> render_call" where
  "nth_call i = (replicate (Suc i) CHR ''x'', ''2024-01-01T00:00:00.000Z'',
                 Some (JStr ''CARD''), Some (JObj []))"

definition caught_up :: registry where
  "caught_up =
     registry_run [Subscribe, Next 0, Render (nth_call 0)] new_ComponentRegistry"

definition backlogged :: registry where
  "backlogged =
     registry_run (Subscribe # Next 0 # map (\<lambda>i. Render (nth_call i)) [0..<257])
       new_ComponentRegistry"

text \<open>The ids of the events handed to a broker so far, in order.\<close>

definition published_ids :: "update PubSub \<Rightarrow> string list" where
  "published_ids ps = map (\<lambda>e. id' (snd (snd e))) (emitted ps)"

section \<open>The component history\<close>

lemma map_set_keys:
  "map fst (map_set k v m) = (if k \<in> set (map fst m) then map fst m else map fst m @ [k])"
  by (induction m) (fastforce simp: image_iff)+

lemma map_set_length: "length m \<le> length (map_set k v m)"
  by (induction m) auto

lemma map_of_map_set: "map_of (map_set k v m) = (map_of m)(k \<mapsto> v)"
  by (induction m) (auto simp: fun_upd_twist)

lemma remdups_skip: "k \<in> set B \<Longrightarrow> remdups (A @ k # B) = remdups (A @ B)"
  by (induction A) auto

lemma insertion_order_skip:
  "k \<in> set xs \<Longrightarrow> insertion_order (xs @ k # ys) = insertion_order (xs @ ys)"
  by (simp add: insertion_order_def remdups_skip)

lemma insertion_order_distinct: "distinct xs \<Longrightarrow> insertion_order xs = xs"
  by (simp add: insertion_order_def distinct_remdups_id)

lemma set_all_keys:
  "distinct (map fst m) \<Longrightarrow>
   map fst (set_all cs m) = insertion_order (map fst m @ map id' cs)"
proof (induction cs arbitrary: m)
  case Nil
  then show ?case by (simp add: set_all_def insertion_order_distinct)
next
  case (Cons c cs)
  have d: "distinct (map fst (map_set (id' c) c m))"
    using Cons.prems by (simp add: map_set_keys)
  have "map fst (set_all (c # cs) m) = map fst (set_all cs (map_set (id' c) c m))"
    by (simp add: set_all_def)
  also have "\<dots> = insertion_order (map fst (map_set (id' c) c m) @ map id' cs)"
    using Cons.IH [OF d] .
  also have "\<dots> = insertion_order (map fst m @ map id' (c # cs))"
    by (simp add: map_set_keys insertion_order_skip)
  finally show ?case .
qed

lemma set_all_lookup:
  "map_of (set_all cs m) k = (case latest k cs of Some c \<Rightarrow> Some c | None \<Rightarrow> map_of m k)"
proof (induction cs arbitrary: m)
  case Nil
  then show ?case by (simp add: set_all_def)
next
  case (Cons c cs)
  have "map_of (set_all (c # cs) m) k = map_of (set_all cs (map_set (id' c) c m)) k"
    by (simp add: set_all_def)
  also have "\<dots> = (case latest k cs of Some c' \<Rightarrow> Some c'
                     | None \<Rightarrow> map_of (map_set (id' c) c m) k)"
    using Cons.IH .
  also have "\<dots> = (case latest k (c # cs) of Some c' \<Rightarrow> Some c' | None \<Rightarrow> map_of m k)"
    by (auto simp: map_of_map_set split: option.splits)
  finally show ?case .
qed

lemma values_by_keys:
  "distinct (map fst m) \<Longrightarrow> map Some (map snd m) = map (map_of m) (map fst m)"
  by (induction m) (auto simp: rev_image_eqI)

lemma map_set_keyed:
  "map fst m = map id' (map snd m) \<Longrightarrow>
   map fst (map_set (id' c) c m) = map id' (map snd (map_set (id' c) c m))"
  by (induction m) (fastforce split: if_splits)+

lemma set_all_keyed:
  "map fst m = map id' (map snd m) \<Longrightarrow>
   map fst (set_all cs m) = map id' (map snd (set_all cs m))"
proof (induction cs arbitrary: m)
  case Nil
  then show ?case by (simp add: set_all_def)
next
  case (Cons c cs)
  have k: "map fst (map_set (id' c) c m) = map id' (map snd (map_set (id' c) c m))"
    using Cons.prems by (rule map_set_keyed)
  show ?case using Cons.IH [OF k] by (simp add: set_all_def)
qed

lemma components_forward_all:
  "components (forward_all cs d) = set_all cs (components d)"
  by (induction cs arbitrary: d)
     (simp_all add: forward_all_def set_all_def handleComponentFromRegistry_def)

lemma components_render_all:
  "components (render_all calls r) = set_all (map minted calls) (components r)"
  by (induction calls arbitrary: r)
     (auto simp: render_all_def set_all_def renderComponent_def minted_def Let_def)

lemma components_daemon_step:
  "components (daemon_step e d) = components d \<or>
   (\<exists>c. components (daemon_step e d) = map_set (id' c) c (components d))"
  by (cases e)
     (auto simp: d_onopen_def d_onmessage_def d_onclose_def d_onerror_def
                 registryWs_send_def connectToRegistry_def handleComponentFromRegistry_def
                 Let_def split: option.splits)

lemma keyed_map_set: "keyed m \<Longrightarrow> keyed (map_set (id' c) c m)"
proof -
  assume k: "keyed m"
  then have d: "distinct (map fst m)" and e: "map fst m = map id' (map snd m)"
    unfolding keyed_def by blast+
  have "distinct (map fst (map_set (id' c) c m))"
    using d by (simp add: map_set_keys)
  moreover have "map fst (map_set (id' c) c m) = map id' (map snd (map_set (id' c) c m))"
    using e by (rule map_set_keyed)
  ultimately show ?thesis by (simp only: keyed_def)
qed

lemma keyed_ids:
  assumes "keyed m"
  shows "distinct (map id' (map snd m))"
proof -
  from assms have d: "distinct (map fst m)" and e: "map fst m = map id' (map snd m)"
    unfolding keyed_def by blast+
  from d show ?thesis unfolding e .
qed

lemma daemon_step_inv: "keyed (components d) \<Longrightarrow> keyed (components (daemon_step e d))"
  using components_daemon_step [of e d] keyed_map_set by metis

lemma daemon_run_inv: "keyed (components d) \<Longrightarrow> keyed (components (daemon_run es d))"
proof (induction es arbitrary: d)
  case Nil
  then show ?case by simp
next
  case (Cons e es)
  from Cons.prems have "keyed (components (daemon_step e d))"
    by (rule daemon_step_inv)
  then have "keyed (components (daemon_run es (daemon_step e d)))"
    by (rule Cons.IH)
  then show ?case by simp
qed

lemma daemon_step_length:
  "length (components d) \<le> length (components (daemon_step e d))"
  using components_daemon_step [of e d] map_set_length by (metis order_refl)

lemma daemon_run_length:
  "length (components d) \<le> length (components (daemon_run es d))"
proof (induction es arbitrary: d)
  case Nil
  then show ?case by simp
next
  case (Cons e es)
  have "length (components d) \<le> length (components (daemon_step e d))"
    by (rule daemon_step_length)
  also have "\<dots> \<le> length (components (daemon_run es (daemon_step e d)))"
    by (rule Cons.IH)
  finally show ?case by simp
qed

lemma listing_set_all:
  "map id' (map snd (set_all cs [])) = insertion_order (map id' cs) \<and>
   distinct (map id' (map snd (set_all cs []))) \<and>
   map Some (map snd (set_all cs [])) = map (\<lambda>k. latest k cs) (insertion_order (map id' cs))"
proof -
  have keys: "map fst (set_all cs []) = insertion_order (map id' cs)"
    using set_all_keys [of "[]" cs] by simp
  have keyed: "map fst (set_all cs []) = map id' (map snd (set_all cs []))"
    using set_all_keyed [of "[]" cs] by simp
  have dist: "distinct (map fst (set_all cs []))"
    by (simp add: keys insertion_order_def)
  have look: "map_of (set_all cs []) = (\<lambda>k. latest k cs)"
    by (rule ext) (simp add: set_all_lookup split: option.splits)
  have "map Some (map snd (set_all cs [])) = map (map_of (set_all cs [])) (map fst (set_all cs []))"
    using dist by (rule values_by_keys)
  then have vals: "map Some (map snd (set_all cs [])) = map (\<lambda>k. latest k cs) (insertion_order (map id' cs))"
    by (simp only: look keys)
  from keys keyed dist vals show ?thesis by simp
qed

lemma map_id_minted: "map id' (map minted calls) = map fst calls"
  by (induction calls) (auto simp: minted_def)

text \<open>
  Claim C9. In the Registry and in the Daemon the history is a map keyed by the
  component's id. After any sequence of publishes from the initial state the
  listing has one entry per id, in the order in which the ids were first
  inserted, and the entry of an id is the component published last under it (a
  later publish with the same id replaces the entry where it stands). Nothing
  removes an entry: no \<^verbatim>\<open>renderComponent\<close> call and no run of Daemon events makes
  the listing shorter.
\<close>

theorem component_history_keyed_by_id:
  "map id' (getComponents (render_all calls new_ComponentRegistry)) = insertion_order (map fst calls)
   \<and> distinct (map id' (getComponents (render_all calls new_ComponentRegistry)))
   \<and> map Some (getComponents (render_all calls new_ComponentRegistry))
       = map (\<lambda>k. latest k (map minted calls)) (insertion_order (map fst calls))
   \<and> map id' (getComponents (forward_all cs new_ComponentDaemon)) = insertion_order (map id' cs)
   \<and> distinct (map id' (getComponents (forward_all cs new_ComponentDaemon)))
   \<and> map Some (getComponents (forward_all cs new_ComponentDaemon))
       = map (\<lambda>k. latest k cs) (insertion_order (map id' cs))
   \<and> distinct (map id' (getComponents (daemon_run es new_ComponentDaemon)))
   \<and> distinct (map id' (getComponents (daemon_run es (start new_ComponentDaemon))))
   \<and> length (getComponents r) \<le> length (getComponents (snd (renderComponent uuid now ty dat r)))
   \<and> length (getComponents d) \<le> length (getComponents (daemon_run es d))"
proof -
  have reg: "getComponents (render_all calls new_ComponentRegistry)
               = map snd (set_all (map minted calls) [])"
    by (simp add: components_render_all new_ComponentRegistry_def getComponents_def map_values_def)
  have dae: "getComponents (forward_all cs new_ComponentDaemon) = map snd (set_all cs [])"
    by (simp add: components_forward_all new_ComponentDaemon_def getComponents_def map_values_def)
  have "keyed (components new_ComponentDaemon)"
    by (simp add: new_ComponentDaemon_def keyed_def)
  then have "keyed (components (daemon_run es new_ComponentDaemon))"
    by (rule daemon_run_inv)
  then have run0: "distinct (map id' (getComponents (daemon_run es new_ComponentDaemon)))"
    unfolding getComponents_def map_values_def by (rule keyed_ids)
  have "keyed (components (start new_ComponentDaemon))"
    by (simp add: start_def connectToRegistry_def new_ComponentDaemon_def keyed_def)
  then have "keyed (components (daemon_run es (start new_ComponentDaemon)))"
    by (rule daemon_run_inv)
  then have run: "distinct (map id' (getComponents (daemon_run es (start new_ComponentDaemon))))"
    unfolding getComponents_def map_values_def by (rule keyed_ids)
  have grow: "length (getComponents r) \<le> length (getComponents (snd (renderComponent uuid now ty dat r)))"
    by (simp add: getComponents_def map_values_def renderComponent_def Let_def map_set_length)
  have grow': "length (getComponents d) \<le> length (getComponents (daemon_run es d))"
    by (simp add: getComponents_def map_values_def daemon_run_length)
  note r = listing_set_all [of "map minted calls", unfolded map_id_minted]
  note d = listing_set_all [of cs]
  from r d run0 run grow grow' show ?thesis
    unfolding reg dae by blast
qed

section \<open>Sending on a socket that is not open\<close>

lemma send_not_open: "\<not> socket_open c \<Longrightarrow> send f c = c"
  by (auto simp: socket_open_def send_def split: option.splits)

lemma wire_send:
  "wire (send f c) = (if socket_open c then wire c @ [f] else wire c)"
  by (auto simp: socket_open_def send_def transmit_def split: option.splits)

lemma wire_client_step:
  "wire (client_step e c) = wire c @
     (case e of
        Ev_open \<Rightarrow> (if ws c = None then [] else [Connection_init])
      | Ev_message m \<Rightarrow>
          (if m_type m = ''connection_ack'' \<and> socket_open c
           then [Start ''renderer-subscription'' ''rendererUpdate''] else [])
      | _ \<Rightarrow> [])"
  by (cases e)
     (auto simp: onopen_def onclose_def onerror_def handleMessage_def startSubscription_def
                 attemptReconnect_def connect_def wire_send socket_open_def Let_def
           split: option.splits)

lemma stops_client_step: "filter is_stop (wire (client_step e c)) = filter is_stop (wire c)"
  by (simp add: wire_client_step split: event.splits)

lemma stops_client_run: "filter is_stop (wire (client_run es c)) = filter is_stop (wire c)"
  by (induction es arbitrary: c) (simp_all add: stops_client_step)

lemma wire_unsubscribe:
  "wire (unsubscribe c) =
     (if connected c \<and> socket_open c then wire c @ [Stop ''renderer-subscription''] else wire c)"
  by (simp add: unsubscribe_def Let_def wire_send socket_open_def)

text \<open>
  Claim C10. While the client's socket is missing or not in the \<^verbatim>\<open>OPEN\<close> state,
  \<^verbatim>\<open>send\<close> returns the client unchanged: nothing is transmitted, nothing is
  stored for later, and no error is raised (the function is total). An
  unsubscribe that runs while the client is not connected, or while its socket
  is not open, puts no frame on the wire, and whatever happens to the client
  afterwards the \<^verbatim>\<open>stop\<close> frame is never sent.
\<close>

theorem send_while_not_open_is_dropped:
  "(\<not> socket_open c \<longrightarrow> send f c = c)
   \<and> (\<not> connected c \<or> \<not> socket_open c \<longrightarrow>
        wire (unsubscribe c) = wire c
        \<and> filter is_stop (wire (client_run es (unsubscribe c))) = filter is_stop (wire c))"
  by (auto simp: send_not_open wire_unsubscribe stops_client_run)

theorem send_while_not_open_is_dropped_witness:
  "\<not> socket_open (connect new_GraphQLWebSocketClient)
   \<and> send (Stop ''renderer-subscription'') (connect new_GraphQLWebSocketClient)
       = connect new_GraphQLWebSocketClient
   \<and> wire (unsubscribe (connect new_GraphQLWebSocketClient)) = []
   \<and> filter is_stop (wire (client_run [Ev_open, Ev_close]
        (unsubscribe (connect new_GraphQLWebSocketClient)))) = []"
proof -
  have h: "\<not> socket_open (connect new_GraphQLWebSocketClient)"
    by (simp add: socket_open_def connect_def new_GraphQLWebSocketClient_def new_WebSocket_def)
  have w: "wire (connect new_GraphQLWebSocketClient) = []"
    by (simp add: connect_def new_GraphQLWebSocketClient_def)
  from send_while_not_open_is_dropped
         [of "connect new_GraphQLWebSocketClient" "Stop ''renderer-subscription''" "[Ev_open, Ev_close]"]
       h w
  show ?thesis by simp
qed

section \<open>Order of the handshake\<close>

lemma d_wire_send:
  "d_wire (registryWs_send f d) = (if registry_socket_open d then d_wire d @ [f] else d_wire d)"
  by (auto simp: registry_socket_open_def registryWs_send_def transmit_def split: option.splits)

lemma open_registryWs_send [simp]: "registry_socket_open (registryWs_send f d) = registry_socket_open d"
  by (auto simp: registry_socket_open_def registryWs_send_def split: option.splits)

lemma d_wire_handle [simp]: "d_wire (handleComponentFromRegistry c d) = d_wire d"
  by (simp add: handleComponentFromRegistry_def Let_def)

lemma d_wire_daemon_step:
  "d_wire (daemon_step e d) = d_wire d @
     (case e of
        Ev_open \<Rightarrow> (if registryWs d = None then [] else [Connection_init])
      | Ev_message m \<Rightarrow>
          (if m_type m = ''connection_ack'' \<and> registry_socket_open d
           then [Start ''registry-sub'' ''componentUpdate''] else [])
      | _ \<Rightarrow> [])"
  by (cases e)
     (auto simp: d_onopen_def d_onclose_def d_onerror_def d_onmessage_def
                 connectToRegistry_def d_wire_send registry_socket_open_def Let_def
           split: option.splits)

lemma count_client_step:
  "length (filter is_init (wire (client_step e c)))
     \<le> length (filter is_init (wire c)) + length (filter is_open [e])
   \<and> length (filter is_start (wire (client_step e c)))
     \<le> length (filter is_start (wire c)) + length (filter is_ack [e])"
  by (simp add: wire_client_step split: event.splits)

lemma count_client_run:
  "length (filter is_init (wire (client_run es c)))
     \<le> length (filter is_init (wire c)) + length (filter is_open es)
   \<and> length (filter is_start (wire (client_run es c)))
     \<le> length (filter is_start (wire c)) + length (filter is_ack es)"
proof (induction es arbitrary: c)
  case Nil
  then show ?case by simp
next
  case (Cons e es)
  from Cons.IH [of "client_step e c"] count_client_step [of e c]
  show ?case by (cases "is_open e"; cases "is_ack e") simp_all
qed

lemma count_daemon_step:
  "length (filter is_init (d_wire (daemon_step e d)))
     \<le> length (filter is_init (d_wire d)) + length (filter is_open [e])
   \<and> length (filter is_start (d_wire (daemon_step e d)))
     \<le> length (filter is_start (d_wire d)) + length (filter is_ack [e])"
  by (simp add: d_wire_daemon_step split: event.splits)

lemma count_daemon_run:
  "length (filter is_init (d_wire (daemon_run es d)))
     \<le> length (filter is_init (d_wire d)) + length (filter is_open es)
   \<and> length (filter is_start (d_wire (daemon_run es d)))
     \<le> length (filter is_start (d_wire d)) + length (filter is_ack es)"
proof (induction es arbitrary: d)
  case Nil
  then show ?case by simp
next
  case (Cons e es)
  from Cons.IH [of "daemon_step e d"] count_daemon_step [of e d]
  show ?case by (cases "is_open e"; cases "is_ack e") simp_all
qed

text \<open>
  Claim C5. In every run of the Renderer's client and of the Daemon's client,
  counted from the first \<^verbatim>\<open>connect\<close>, the number of \<^verbatim>\<open>connection_init\<close> frames
  sent never exceeds the number of \<^verbatim>\<open>open\<close> events and the number of \<^verbatim>\<open>start\<close>
  frames never exceeds the number of \<^verbatim>\<open>connection_ack\<close> messages received; so
  neither is sent before the transport is established, respectively before
  the acknowledgment. The \<^verbatim>\<open>open\<close> event itself sends the init, and the
  acknowledgment itself sends the \<^verbatim>\<open>start\<close> for the client's one subscription.
\<close>

theorem handshake_order:
  "length (filter is_init (wire (client_run es (connect new_GraphQLWebSocketClient))))
     \<le> length (filter is_open es)
   \<and> length (filter is_start (wire (client_run es (connect new_GraphQLWebSocketClient))))
     \<le> length (filter is_ack es)
   \<and> length (filter is_init (d_wire (daemon_run es (start new_ComponentDaemon))))
     \<le> length (filter is_open es)
   \<and> length (filter is_start (d_wire (daemon_run es (start new_ComponentDaemon))))
     \<le> length (filter is_ack es)
   \<and> wire (client_step Ev_open c)
       = wire c @ (if ws c = None then [] else [Connection_init])
   \<and> wire (client_step (Ev_message m) c)
       = wire c @ (if m_type m = ''connection_ack'' \<and> socket_open c
                   then [Start ''renderer-subscription'' ''rendererUpdate''] else [])
   \<and> d_wire (daemon_step Ev_open d)
       = d_wire d @ (if registryWs d = None then [] else [Connection_init])
   \<and> d_wire (daemon_step (Ev_message m) d)
       = d_wire d @ (if m_type m = ''connection_ack'' \<and> registry_socket_open d
                     then [Start ''registry-sub'' ''componentUpdate''] else [])"
proof -
  have c0: "wire (connect new_GraphQLWebSocketClient) = []"
    by (simp add: connect_def new_GraphQLWebSocketClient_def)
  have d0: "d_wire (start new_ComponentDaemon) = []"
    by (simp add: start_def connectToRegistry_def new_ComponentDaemon_def)
  have r: "length (filter is_init (wire (client_run es (connect new_GraphQLWebSocketClient))))
             \<le> length (filter is_open es)
           \<and> length (filter is_start (wire (client_run es (connect new_GraphQLWebSocketClient))))
             \<le> length (filter is_ack es)"
    using count_client_run [of es "connect new_GraphQLWebSocketClient"] by (simp add: c0)
  have dd: "length (filter is_init (d_wire (daemon_run es (start new_ComponentDaemon))))
              \<le> length (filter is_open es)
            \<and> length (filter is_start (d_wire (daemon_run es (start new_ComponentDaemon))))
              \<le> length (filter is_ack es)"
    using count_daemon_run [of es "start new_ComponentDaemon"] by (simp add: d0)
  have s1: "wire (client_step Ev_open c)
              = wire c @ (if ws c = None then [] else [Connection_init])"
    using wire_client_step [of Ev_open c] by (simp del: client_step.simps)
  have s2: "wire (client_step (Ev_message m) c)
              = wire c @ (if m_type m = ''connection_ack'' \<and> socket_open c
                          then [Start ''renderer-subscription'' ''rendererUpdate''] else [])"
    using wire_client_step [of "Ev_message m" c] by (simp del: client_step.simps)
  have s3: "d_wire (daemon_step Ev_open d)
              = d_wire d @ (if registryWs d = None then [] else [Connection_init])"
    using d_wire_daemon_step [of Ev_open d] by (simp del: daemon_step.simps)
  have s4: "d_wire (daemon_step (Ev_message m) d)
              = d_wire d @ (if m_type m = ''connection_ack'' \<and> registry_socket_open d
                            then [Start ''registry-sub'' ''componentUpdate''] else [])"
    using d_wire_daemon_step [of "Ev_message m" d] by (simp del: daemon_step.simps)
  from r dd s1 s2 s3 s4 show ?thesis by blast
qed

section \<open>The Daemon as a pass-through\<close>

lemma registryWs_daemon_step: "registryWs d \<noteq> None \<Longrightarrow> registryWs (daemon_step e d) \<noteq> None"
  by (cases e)
     (auto simp: d_onopen_def d_onclose_def d_onerror_def d_onmessage_def registryWs_send_def
                 connectToRegistry_def handleComponentFromRegistry_def Let_def
           split: option.splits)

lemma pubsub_registryWs_send [simp]: "pubsub (registryWs_send f d) = pubsub d"
  by (simp add: registryWs_send_def split: option.splits)

lemma pubsub_handle:
  "pubsub (handleComponentFromRegistry c d)
     = publish ''RENDERER_UPDATE'' (''rendererUpdate'', c) (pubsub d)"
  by (simp add: handleComponentFromRegistry_def Let_def)

lemma pubsub_daemon_step_message:
  "pubsub (daemon_step (Ev_message m) d) =
     (if registryWs d \<noteq> None \<and> m_type m = ''data'' \<and> \<not> payload_errors m
      then (case payload_data ''componentUpdate'' m of
              Some c \<Rightarrow> publish ''RENDERER_UPDATE'' (''rendererUpdate'', c) (pubsub d)
            | None \<Rightarrow> pubsub d)
      else pubsub d)"
  by (auto simp: d_onmessage_def pubsub_handle Let_def split: option.splits)

lemma pubsub_daemon_step_other:
  "\<not> (\<exists>m. e = Ev_message m) \<Longrightarrow> pubsub (daemon_step e d) = pubsub d"
  by (cases e)
     (auto simp: d_onopen_def d_onclose_def d_onerror_def connectToRegistry_def
           split: option.splits)

lemma emitted_daemon_step:
  assumes "registryWs d \<noteq> None"
  shows "emitted (pubsub (daemon_step e d)) = emitted (pubsub d) @ map forwarded (received [e])"
proof (cases "\<exists>m. e = Ev_message m")
  case True
  then obtain m where e: "e = Ev_message m" by blast
  from assms show ?thesis
    unfolding e pubsub_daemon_step_message
    by (auto simp: publish_def forwarded_def split: option.splits)
next
  case False
  then have "received [e] = []" by (cases e) simp_all
  with pubsub_daemon_step_other [OF False, of d] show ?thesis by simp
qed

lemma received_Cons: "received (e # es) = received [e] @ received es"
  by (cases e) simp_all

lemma emitted_daemon_run:
  "registryWs d \<noteq> None \<Longrightarrow>
   emitted (pubsub (daemon_run es d)) = emitted (pubsub d) @ map forwarded (received es)"
proof (induction es arbitrary: d)
  case Nil
  then show ?case by simp
next
  case (Cons e es)
  from Cons.prems have ws: "registryWs (daemon_step e d) \<noteq> None"
    by (rule registryWs_daemon_step)
  have "emitted (pubsub (daemon_run (e # es) d))
          = emitted (pubsub (daemon_step e d)) @ map forwarded (received es)"
    using Cons.IH [OF ws] by simp
  also have "\<dots> = emitted (pubsub d) @ map forwarded (received [e]) @ map forwarded (received es)"
    using emitted_daemon_step [OF Cons.prems, of e] by simp
  also have "\<dots> = emitted (pubsub d) @ map forwarded (received (e # es))"
    using received_Cons [of e es] by simp
  finally show ?case .
qed

lemma daemon_run_append: "daemon_run (es @ fs) d = daemon_run fs (daemon_run es d)"
  by (induction es arbitrary: d) simp_all

lemma registryWs_daemon_run: "registryWs d \<noteq> None \<Longrightarrow> registryWs (daemon_run es d) \<noteq> None"
proof (induction es arbitrary: d)
  case Nil
  then show ?case by simp
next
  case (Cons e es)
  from Cons.prems have "registryWs (daemon_step e d) \<noteq> None"
    by (rule registryWs_daemon_step)
  then have "registryWs (daemon_run es (daemon_step e d)) \<noteq> None"
    by (rule Cons.IH)
  then show ?case by simp
qed

lemma pubsub_event_message:
  "pubsub (daemon_step (Ev_message (event_message i c)) d)
     = (if registryWs d = None then pubsub d
        else publish ''RENDERER_UPDATE'' (''rendererUpdate'', c) (pubsub d))"
  by (auto simp: event_message_def data_message_def d_onmessage_def payload_errors_def
                 payload_data_def pubsub_handle Let_def
           split: option.splits)

lemma pubsub_flagged_message:
  "pubsub (daemon_step (Ev_message (data_message i (Some e) (Some [(''componentUpdate'', c)]))) d)
     = (if registryWs d \<noteq> None \<and> \<not> truthy e
        then publish ''RENDERER_UPDATE'' (''rendererUpdate'', c) (pubsub d)
        else pubsub d)"
  by (auto simp: data_message_def d_onmessage_def payload_errors_def
                 payload_data_def pubsub_handle Let_def
           split: option.splits)

lemma emitted_event_messages:
  "registryWs d \<noteq> None \<Longrightarrow>
   emitted (pubsub (daemon_run (map (\<lambda>(i, c). Ev_message (event_message i c)) ics) d))
     = emitted (pubsub d) @ map (\<lambda>(i, c). (''RENDERER_UPDATE'', (''rendererUpdate'', c))) ics"
proof (induction ics arbitrary: d)
  case Nil
  then show ?case by simp
next
  case (Cons ic ics)
  obtain i c where ic: "ic = (i, c)" by (cases ic)
  define d' where "d' = daemon_step (Ev_message (event_message i c)) d"
  from Cons.prems have ws: "registryWs d' \<noteq> None"
    unfolding d'_def by (rule registryWs_daemon_step)
  from Cons.prems have e: "emitted (pubsub d')
                             = emitted (pubsub d) @ [(''RENDERER_UPDATE'', (''rendererUpdate'', c))]"
    unfolding d'_def pubsub_event_message by (simp add: publish_def)
  have run: "daemon_run (map (\<lambda>(i, c). Ev_message (event_message i c)) (ic # ics)) d
               = daemon_run (map (\<lambda>(i, c). Ev_message (event_message i c)) ics) d'"
    unfolding d'_def ic by simp
  from Cons.IH [OF ws] show ?case
    unfolding run by (simp add: e ic)
qed

text \<open>
  Claim C2. An event reaches the Daemon in the \<^verbatim>\<open>data\<close> message by which the
  Registry delivers it. Whenever such a message arrives, whatever happened
  before, the Daemon makes exactly one publish on its own broker, inside the
  handler of that message, under the trigger \<^verbatim>\<open>RENDERER_UPDATE\<close>, and the
  published component is the received one itself (so with the same id, type,
  data and createdAt); a stream of such messages is published one for one, in
  order. The Daemon publishes nothing else. The one message it holds back is a
  \<^verbatim>\<open>data\<close> message whose payload has truthy \<^verbatim>\<open>errors\<close> (an empty array counts):
  that is logged as an error and nothing is published, even if a component
  came with it, which a result of the Registry's schema never has.
\<close>

theorem daemon_republishes_unchanged:
  "emitted (pubsub (daemon_run (es @ [Ev_message (event_message i c)]) (start new_ComponentDaemon)))
     = emitted (pubsub (daemon_run es (start new_ComponentDaemon)))
         @ [(''RENDERER_UPDATE'', (''rendererUpdate'', c))]
   \<and> emitted (pubsub (daemon_run (map (\<lambda>(i, c). Ev_message (event_message i c)) ics)
                        (start new_ComponentDaemon)))
       = map (\<lambda>(i, c). (''RENDERER_UPDATE'', (''rendererUpdate'', c))) ics
   \<and> pubsub (daemon_step (Ev_message (event_message i c)) d)
       = (if registryWs d = None then pubsub d
          else publish ''RENDERER_UPDATE'' (''rendererUpdate'', c) (pubsub d))
   \<and> pubsub (daemon_step (Ev_message (data_message i (Some e) (Some [(''componentUpdate'', c)]))) d)
       = (if registryWs d \<noteq> None \<and> \<not> truthy e
          then publish ''RENDERER_UPDATE'' (''rendererUpdate'', c) (pubsub d)
          else pubsub d)
   \<and> emitted (pubsub (daemon_run es (start new_ComponentDaemon))) = map forwarded (received es)
   \<and> pubsub (daemon_step (Ev_message m) d) =
       (if registryWs d \<noteq> None \<and> m_type m = ''data'' \<and> \<not> payload_errors m
        then (case payload_data ''componentUpdate'' m of
                Some c \<Rightarrow> publish ''RENDERER_UPDATE'' (''rendererUpdate'', c) (pubsub d)
              | None \<Rightarrow> pubsub d)
        else pubsub d)
   \<and> pubsub (handleComponentFromRegistry c d)
       = publish ''RENDERER_UPDATE'' (''rendererUpdate'', c) (pubsub d)"
proof -
  have ws: "registryWs (start new_ComponentDaemon) \<noteq> None"
    by (simp add: start_def connectToRegistry_def)
  have e0: "emitted (pubsub (start new_ComponentDaemon)) = []"
    by (simp add: start_def connectToRegistry_def new_ComponentDaemon_def new_PubSub_def)
  define d1 where "d1 = daemon_run es (start new_ComponentDaemon)"
  from ws have ws1: "registryWs d1 \<noteq> None"
    unfolding d1_def by (rule registryWs_daemon_run)
  have "daemon_run (es @ [Ev_message (event_message i c)]) (start new_ComponentDaemon)
          = daemon_step (Ev_message (event_message i c)) d1"
    unfolding d1_def by (simp add: daemon_run_append)
  then have "emitted (pubsub (daemon_run (es @ [Ev_message (event_message i c)])
                                (start new_ComponentDaemon)))
               = emitted (pubsub d1) @ [(''RENDERER_UPDATE'', (''rendererUpdate'', c))]"
    using ws1 by (simp only: pubsub_event_message) (simp add: publish_def)
  then have a: "emitted (pubsub (daemon_run (es @ [Ev_message (event_message i c)])
                                   (start new_ComponentDaemon)))
                  = emitted (pubsub (daemon_run es (start new_ComponentDaemon)))
                      @ [(''RENDERER_UPDATE'', (''rendererUpdate'', c))]"
    unfolding d1_def .
  have b: "emitted (pubsub (daemon_run (map (\<lambda>(i, c). Ev_message (event_message i c)) ics)
                              (start new_ComponentDaemon)))
             = map (\<lambda>(i, c). (''RENDERER_UPDATE'', (''rendererUpdate'', c))) ics"
    using emitted_event_messages [OF ws, of ics] by (simp add: e0)
  have t: "emitted (pubsub (daemon_run es (start new_ComponentDaemon))) = map forwarded (received es)"
    using emitted_daemon_run [OF ws, of es] by (simp add: e0)
  from a b t pubsub_event_message [of i c d] pubsub_flagged_message [of i e c d]
       pubsub_daemon_step_message [of m d] pubsub_handle [of c d]
  show ?thesis by blast
qed

section \<open>Reconnection\<close>

lemma linear_backoff_Suc: "linear_backoff (Suc n) = linear_backoff n @ [2000 * Suc n]"
  by (simp add: linear_backoff_def)

lemma max_client_step [simp]: "maxReconnectAttempts (client_step e c) = maxReconnectAttempts c"
  by (cases e)
     (auto simp: onopen_def onclose_def onerror_def handleMessage_def startSubscription_def
                 send_def attemptReconnect_def connect_def Let_def
           split: option.splits)

lemma max_client_run [simp]: "maxReconnectAttempts (client_run es c) = maxReconnectAttempts c"
  by (induction es arbitrary: c) simp_all

lemma backoff_attemptReconnect: "backoff_inv c \<Longrightarrow> backoff_inv (attemptReconnect c)"
  by (auto simp: backoff_inv_def attemptReconnect_def Let_def linear_backoff_Suc)

lemma backoff_client_step:
  "backoff_inv c \<Longrightarrow> \<not> is_open e \<Longrightarrow> backoff_inv (client_step e c)"
proof (cases e)
  case Ev_close
  assume inv: "backoff_inv c"
  show ?thesis
  proof (cases "ws c")
    case None
    with inv Ev_close show ?thesis by simp
  next
    case (Some w)
    from inv have "backoff_inv (c\<lparr>ws := Some (w\<lparr>readyState := CLOSED\<rparr>), connected := False\<rparr>)"
      by (simp add: backoff_inv_def)
    then have "backoff_inv
                 (attemptReconnect (c\<lparr>ws := Some (w\<lparr>readyState := CLOSED\<rparr>), connected := False\<rparr>))"
      by (rule backoff_attemptReconnect)
    with Some Ev_close show ?thesis by (simp add: onclose_def)
  qed
qed (auto simp: backoff_inv_def onerror_def handleMessage_def startSubscription_def
                send_def connect_def split: option.splits)

lemma backoff_client_run:
  "backoff_inv c \<Longrightarrow> filter is_open es = [] \<Longrightarrow> backoff_inv (client_run es c)"
proof (induction es arbitrary: c)
  case Nil
  then show ?case by simp
next
  case (Cons e es)
  from Cons.prems(2) have e: "\<not> is_open e" and es: "filter is_open es = []"
    by (auto split: if_splits)
  from Cons.prems(1) e have "backoff_inv (client_step e c)"
    by (rule backoff_client_step)
  from Cons.IH [OF this es] show ?case by simp
qed

lemma failed_round:
  assumes "ws c \<noteq> None" and "timers c = []"
  shows "ws (client_run [Ev_error, Ev_close, Ev_timeout 0] c)
           = (if reconnectAttempts c < maxReconnectAttempts c
              then Some new_WebSocket else Some \<lparr>readyState = CLOSED\<rparr>)
         \<and> timers (client_run [Ev_error, Ev_close, Ev_timeout 0] c) = []
         \<and> reconnectAttempts (client_run [Ev_error, Ev_close, Ev_timeout 0] c)
           = (if reconnectAttempts c < maxReconnectAttempts c
              then Suc (reconnectAttempts c) else reconnectAttempts c)
         \<and> scheduled (client_run [Ev_error, Ev_close, Ev_timeout 0] c)
           = scheduled c @ (if reconnectAttempts c < maxReconnectAttempts c
                            then [2000 * Suc (reconnectAttempts c)] else [])"
  using assms
  by (auto simp: onerror_def onclose_def attemptReconnect_def connect_def Let_def)

lemma client_run_append: "client_run (es @ fs) c = client_run fs (client_run es c)"
  by (induction es arbitrary: c) simp_all

lemma failures_scheduled:
  assumes "ws c \<noteq> None" and "timers c = []"
      and "reconnectAttempts c \<le> maxReconnectAttempts c"
  shows "scheduled (client_run (failures n) c)
           = scheduled c @ map (\<lambda>k. 2000 * k)
               [Suc (reconnectAttempts c) ..< Suc (min (reconnectAttempts c + n) (maxReconnectAttempts c))]
         \<and> timers (client_run (failures n) c) = []
         \<and> ws (client_run (failures n) c) \<noteq> None"
  using assms
proof (induction n arbitrary: c)
  case 0
  then show ?case by simp
next
  case (Suc n)
  define c' where "c' = client_run [Ev_error, Ev_close, Ev_timeout 0] c"
  note r = failed_round [OF Suc.prems(1,2), folded c'_def]
  have run: "client_run (failures (Suc n)) c = client_run (failures n) c'"
    by (simp only: failures.simps client_run_append c'_def)
  have w: "ws c' \<noteq> None" using r by (simp split: if_splits)
  have t: "timers c' = []" using r by simp
  have m: "maxReconnectAttempts c' = maxReconnectAttempts c"
    unfolding c'_def by (rule max_client_run)
  have le: "reconnectAttempts c' \<le> maxReconnectAttempts c'"
    using r Suc.prems(3) by (simp only: m) (simp split: if_splits)
  note ih = Suc.IH [OF w t le]
  show ?case
  proof (cases "reconnectAttempts c < maxReconnectAttempts c")
    case True
    with r have a: "reconnectAttempts c' = Suc (reconnectAttempts c)"
      and s: "scheduled c' = scheduled c @ [2000 * Suc (reconnectAttempts c)]"
      by simp_all
    from True have "Suc (reconnectAttempts c)
                      < Suc (min (reconnectAttempts c + Suc n) (maxReconnectAttempts c))"
      by simp
    then have "[Suc (reconnectAttempts c) ..<
                  Suc (min (reconnectAttempts c + Suc n) (maxReconnectAttempts c))]
               = Suc (reconnectAttempts c) #
                 [Suc (Suc (reconnectAttempts c)) ..<
                  Suc (min (reconnectAttempts c + Suc n) (maxReconnectAttempts c))]"
      by (rule upt_conv_Cons)
    with ih show ?thesis unfolding run by (simp add: a s m)
  next
    case False
    with r have a: "reconnectAttempts c' = reconnectAttempts c"
      and s: "scheduled c' = scheduled c"
      by simp_all
    from False Suc.prems(3) have "reconnectAttempts c = maxReconnectAttempts c" by simp
    with ih show ?thesis unfolding run by (simp add: a s m)
  qed
qed

lemma d_scheduled_failures:
  "registryWs d \<noteq> None \<Longrightarrow> d_timers d = [] \<Longrightarrow>
   d_scheduled (daemon_run (failures n) d) = d_scheduled d @ replicate n 2000
   \<and> d_timers (daemon_run (failures n) d) = []
   \<and> registryWs (daemon_run (failures n) d) \<noteq> None"
proof (induction n arbitrary: d)
  case 0
  then show ?case by simp
next
  case (Suc n)
  define d' where "d' = daemon_run [Ev_error, Ev_close, Ev_timeout 0] d"
  from Suc.prems have w: "registryWs d' \<noteq> None" and t: "d_timers d' = []"
    and s: "d_scheduled d' = d_scheduled d @ [2000]"
    unfolding d'_def by (auto simp: d_onerror_def d_onclose_def connectToRegistry_def)
  have run: "daemon_run (failures (Suc n)) d = daemon_run (failures n) d'"
    unfolding d'_def by simp
  from Suc.IH [OF w t] show ?case
    unfolding run by (simp add: s replicate_app_Cons_same)
qed

text \<open>
  Claim C3, as stated, fails for the Daemon's client: its close handler sets a
  timer of 2000 ms every time, whatever the number of earlier attempts, and
  nothing stops it. After six failed rounds six timers of 2000 ms each have
  been set (the second is not 4000 ms) and the sixth attempt is under way.
\<close>

theorem daemon_backoff_counterexample:
  "d_scheduled (daemon_run (failures 6) (start new_ComponentDaemon))
     = [2000, 2000, 2000, 2000, 2000, 2000]
   \<and> d_scheduled (daemon_run (failures 6) (start new_ComponentDaemon)) \<noteq> linear_backoff 5
   \<and> registryWs (daemon_run (failures 6) (start new_ComponentDaemon)) = Some new_WebSocket"
proof -
  have f: "failures 6 = failures (Suc (Suc (Suc (Suc (Suc (Suc 0))))))"
    by (simp add: eval_nat_numeral)
  have s: "d_scheduled (daemon_run (failures 6) (start new_ComponentDaemon))
             = [2000, 2000, 2000, 2000, 2000, 2000]"
    unfolding f
    by (simp add: start_def connectToRegistry_def new_ComponentDaemon_def
                  d_onerror_def d_onclose_def)
  have w: "registryWs (daemon_run (failures 6) (start new_ComponentDaemon)) = Some new_WebSocket"
    unfolding f
    by (simp add: start_def connectToRegistry_def new_ComponentDaemon_def
                  d_onerror_def d_onclose_def)
  have len: "length (linear_backoff 5) = 5"
    by (simp add: linear_backoff_def)
  have n: "[2000, 2000, 2000, 2000, 2000, 2000] \<noteq> linear_backoff 5"
  proof
    assume "[2000, 2000, 2000, 2000, 2000, 2000] = linear_backoff 5"
    then have "length [2000, 2000, 2000, 2000, 2000, 2000::nat] = length (linear_backoff 5)"
      by simp
    with len show False by simp
  qed
  from s w n show ?thesis by simp
qed

lemma scheduled_client_step:
  "scheduled (client_step e c)
     = scheduled c @
         (if e = Ev_close \<and> ws c \<noteq> None \<and> reconnectAttempts c < maxReconnectAttempts c
          then [2000 * (reconnectAttempts c + 1)] else [])"
  by (cases e)
     (auto simp: onopen_def onclose_def onerror_def handleMessage_def startSubscription_def
                 send_def attemptReconnect_def connect_def Let_def
           split: option.splits)

lemma timers_client_close:
  "timers (client_step Ev_close c)
     = timers c @
         (if ws c \<noteq> None \<and> reconnectAttempts c < maxReconnectAttempts c
          then [2000 * (reconnectAttempts c + 1)] else [])"
  by (auto simp: onclose_def attemptReconnect_def Let_def split: option.splits)

lemma attempts_client_step:
  "reconnectAttempts (client_step e c)
     = (if ws c = None then reconnectAttempts c
        else if e = Ev_open then 0
        else if e = Ev_close \<and> reconnectAttempts c < maxReconnectAttempts c
             then reconnectAttempts c + 1
        else reconnectAttempts c)"
  by (cases e)
     (auto simp: onopen_def onclose_def onerror_def handleMessage_def startSubscription_def
                 send_def attemptReconnect_def connect_def Let_def
           split: option.splits)

lemma ws_client_timeout:
  "ws (client_step (Ev_timeout i) c) = (if i < length (timers c) then Some new_WebSocket else ws c)"
  by (simp add: connect_def)

lemma d_scheduled_daemon_step:
  "d_scheduled (daemon_step e d)
     = d_scheduled d @ (if e = Ev_close \<and> registryWs d \<noteq> None then [2000] else [])"
  by (cases e)
     (auto simp: d_onopen_def d_onclose_def d_onerror_def d_onmessage_def registryWs_send_def
                 connectToRegistry_def handleComponentFromRegistry_def Let_def
           split: option.splits)

lemma d_timers_daemon_close:
  "d_timers (daemon_step Ev_close d)
     = d_timers d @ (if registryWs d \<noteq> None then [2000] else [])"
  by (auto simp: d_onclose_def split: option.splits)

lemma registryWs_daemon_timeout:
  "registryWs (daemon_step (Ev_timeout i) d)
     = (if i < length (d_timers d) then Some new_WebSocket else registryWs d)"
  by (simp add: connectToRegistry_def)

lemma established_connection_lost:
  "scheduled (client_run (Ev_close # Ev_timeout 0 # failures n) subscribed_client)
     = linear_backoff (min (Suc n) 5)"
proof -
  define c1 where "c1 = client_run [Ev_close, Ev_timeout 0] subscribed_client"
  have f: "ws c1 \<noteq> None" "timers c1 = []" "reconnectAttempts c1 = 1"
    "maxReconnectAttempts c1 = 5" "scheduled c1 = [2000]"
    unfolding c1_def
    by (simp_all add: subscribed_client_def connection_ack_def subscribe_def
                      connect_def new_GraphQLWebSocketClient_def new_WebSocket_def
                      onopen_def send_def transmit_def handleMessage_def startSubscription_def
                      onclose_def attemptReconnect_def Let_def)
  from f have le: "reconnectAttempts c1 \<le> maxReconnectAttempts c1" by simp
  have run: "client_run (Ev_close # Ev_timeout 0 # failures n) subscribed_client
               = client_run (failures n) c1"
    unfolding c1_def by simp
  from failures_scheduled [OF f(1) f(2) le, of n]
  show ?thesis
    unfolding run linear_backoff_def by (simp add: f upt_conv_Cons del: upt_Suc)
qed

text \<open>
  Claim C3, amended. For the Renderer's client, in any state: a \<^verbatim>\<open>close\<close> event
  sets a reconnection timer exactly when the attempt counter is below the
  maximum, the delay is 2000 ms times the incremented counter, and no other
  event sets one; an \<^verbatim>\<open>open\<close> event resets the counter, a \<^verbatim>\<open>close\<close> below the
  maximum increments it, nothing else changes it; the expiry of a timer opens
  a new socket; and the maximum is 5 in every state the client reaches. So
  when an established connection is lost and \<open>n\<close> further attempts fail, the
  delays are 2000, 4000, ... for \<open>min (n + 1) 5\<close> attempts, and likewise from
  the first \<^verbatim>\<open>connect()\<close>; the sixth and later failures set no timer (the client
  only logs that the maximum was reached). For the Daemon's client, in any
  state: every \<^verbatim>\<open>close\<close> event sets a timer of 2000 ms, whatever happened before,
  and its expiry opens a new socket; there is no counter and no cap.
\<close>

theorem reconnect_policy:
  "(filter is_open es = [] \<longrightarrow>
      scheduled (client_run es (connect new_GraphQLWebSocketClient))
        = linear_backoff (reconnectAttempts (client_run es (connect new_GraphQLWebSocketClient)))
      \<and> reconnectAttempts (client_run es (connect new_GraphQLWebSocketClient)) \<le> 5)
   \<and> scheduled (client_run (failures n) (connect new_GraphQLWebSocketClient))
       = linear_backoff (min n 5)
   \<and> reconnectAttempts (client_step Ev_open c) = (if ws c = None then reconnectAttempts c else 0)
   \<and> d_scheduled (daemon_run (failures n) (start new_ComponentDaemon)) = replicate n 2000
   \<and> scheduled (client_step e c)
       = scheduled c @
           (if e = Ev_close \<and> ws c \<noteq> None \<and> reconnectAttempts c < maxReconnectAttempts c
            then [2000 * (reconnectAttempts c + 1)] else [])
   \<and> timers (client_step Ev_close c)
       = timers c @
           (if ws c \<noteq> None \<and> reconnectAttempts c < maxReconnectAttempts c
            then [2000 * (reconnectAttempts c + 1)] else [])
   \<and> reconnectAttempts (client_step e c)
       = (if ws c = None then reconnectAttempts c
          else if e = Ev_open then 0
          else if e = Ev_close \<and> reconnectAttempts c < maxReconnectAttempts c
               then reconnectAttempts c + 1
          else reconnectAttempts c)
   \<and> ws (client_step (Ev_timeout i) c)
       = (if i < length (timers c) then Some new_WebSocket else ws c)
   \<and> maxReconnectAttempts (client_run es (connect new_GraphQLWebSocketClient)) = 5
   \<and> scheduled (client_run (Ev_close # Ev_timeout 0 # failures n) subscribed_client)
       = linear_backoff (min (Suc n) 5)
   \<and> d_scheduled (daemon_step e d)
       = d_scheduled d @ (if e = Ev_close \<and> registryWs d \<noteq> None then [2000] else [])
   \<and> d_timers (daemon_step Ev_close d)
       = d_timers d @ (if registryWs d \<noteq> None then [2000] else [])
   \<and> registryWs (daemon_step (Ev_timeout i) d)
       = (if i < length (d_timers d) then Some new_WebSocket else registryWs d)"
proof -
  let ?c0 = "connect new_GraphQLWebSocketClient"
  have inv0: "backoff_inv ?c0"
    by (simp add: backoff_inv_def connect_def new_GraphQLWebSocketClient_def linear_backoff_def)
  have m: "maxReconnectAttempts (client_run es ?c0) = 5"
    by (simp add: connect_def new_GraphQLWebSocketClient_def)
  have a: "filter is_open es = [] \<longrightarrow>
             scheduled (client_run es ?c0) = linear_backoff (reconnectAttempts (client_run es ?c0))
             \<and> reconnectAttempts (client_run es ?c0) \<le> 5"
  proof
    assume "filter is_open es = []"
    with inv0 have "backoff_inv (client_run es ?c0)" by (rule backoff_client_run)
    with m show "scheduled (client_run es ?c0)
                       = linear_backoff (reconnectAttempts (client_run es ?c0))
                     \<and> reconnectAttempts (client_run es ?c0) \<le> 5"
      by (simp add: backoff_inv_def)
  qed
  have f0: "ws ?c0 \<noteq> None" "timers ?c0 = []" "reconnectAttempts ?c0 \<le> maxReconnectAttempts ?c0"
    by (simp_all add: connect_def new_GraphQLWebSocketClient_def)
  have b: "scheduled (client_run (failures n) ?c0) = linear_backoff (min n 5)"
    using failures_scheduled [OF f0, of n]
    by (simp add: connect_def new_GraphQLWebSocketClient_def linear_backoff_def)
  have c: "reconnectAttempts (client_step Ev_open c) = (if ws c = None then reconnectAttempts c else 0)"
    by (auto simp: onopen_def send_def split: option.splits)
  have d0: "registryWs (start new_ComponentDaemon) \<noteq> None" "d_timers (start new_ComponentDaemon) = []"
    by (simp_all add: start_def connectToRegistry_def new_ComponentDaemon_def)
  have d: "d_scheduled (daemon_run (failures n) (start new_ComponentDaemon)) = replicate n 2000"
    using d_scheduled_failures [OF d0, of n]
    by (simp add: start_def connectToRegistry_def new_ComponentDaemon_def)
  from a b c d m scheduled_client_step [of e c] timers_client_close [of c]
       attempts_client_step [of e c] ws_client_timeout [of i c]
       established_connection_lost [of n] d_scheduled_daemon_step [of e d]
       d_timers_daemon_close [of d] registryWs_daemon_timeout [of i d]
  show ?thesis by blast
qed

theorem reconnect_policy_witness:
  "filter is_open [Ev_error, Ev_close, Ev_timeout 0, Ev_close] = []
   \<and> scheduled (client_run [Ev_error, Ev_close, Ev_timeout 0, Ev_close]
        (connect new_GraphQLWebSocketClient)) = [2000, 4000]
   \<and> scheduled (client_run (failures 7) (connect new_GraphQLWebSocketClient))
       = [2000, 4000, 6000, 8000, 10000]
   \<and> d_scheduled (daemon_run (failures 2) (start new_ComponentDaemon)) = [2000, 2000]"
proof -
  have h: "filter is_open [Ev_error, Ev_close, Ev_timeout 0, Ev_close] = []" by simp
  have r: "reconnectAttempts (client_run [Ev_error, Ev_close, Ev_timeout 0, Ev_close]
             (connect new_GraphQLWebSocketClient)) = 2"
    by (simp add: connect_def new_GraphQLWebSocketClient_def onerror_def onclose_def
                  attemptReconnect_def Let_def)
  have l2: "linear_backoff 2 = [2000, 4000]"
    by (simp add: linear_backoff_def upt_rec)
  have l5: "linear_backoff (min 7 5) = [2000, 4000, 6000, 8000, 10000]"
    by (simp add: linear_backoff_def upt_rec)
  have "replicate (Suc (Suc 0)) (2000::nat) = [2000, 2000]"
    by simp
  then have r2: "replicate 2 (2000::nat) = [2000, 2000]"
    by (simp only: numeral_2_eq_2)
  note p = reconnect_policy
             [where es = "[Ev_error, Ev_close, Ev_timeout 0, Ev_close]" and n = 7
                and c = new_GraphQLWebSocketClient and e = Ev_close and i = 0
                and d = new_ComponentDaemon]
  note q = reconnect_policy
             [where es = "[]" and n = 2
                and c = new_GraphQLWebSocketClient and e = Ev_close and i = 0
                and d = new_ComponentDaemon]
  from p have p1: "filter is_open [Ev_error, Ev_close, Ev_timeout 0, Ev_close] = [] \<longrightarrow>
      scheduled (client_run [Ev_error, Ev_close, Ev_timeout 0, Ev_close]
                   (connect new_GraphQLWebSocketClient))
        = linear_backoff (reconnectAttempts
            (client_run [Ev_error, Ev_close, Ev_timeout 0, Ev_close]
               (connect new_GraphQLWebSocketClient)))
      \<and> reconnectAttempts (client_run [Ev_error, Ev_close, Ev_timeout 0, Ev_close]
                              (connect new_GraphQLWebSocketClient)) \<le> 5"
    and p2: "scheduled (client_run (failures 7) (connect new_GraphQLWebSocketClient))
               = linear_backoff (min 7 5)"
    by blast+
  from q have q4: "d_scheduled (daemon_run (failures 2) (start new_ComponentDaemon))
                     = replicate 2 2000"
    by blast
  from p1 h have "scheduled (client_run [Ev_error, Ev_close, Ev_timeout 0, Ev_close]
                               (connect new_GraphQLWebSocketClient)) = linear_backoff 2"
    unfolding r by blast
  with h p2 q4 show ?thesis by (simp only: l2 l5 r2)
qed

section \<open>Explicit disconnect\<close>

lemma wire_disconnect: "wire (disconnect c) = wire c"
  by (simp add: disconnect_def split: option.splits)

lemma ws_disconnect: "ws (disconnect c) = map_option ws_close (ws c)"
  by (simp add: disconnect_def split: option.splits)

lemma ws_unsubscribe: "ws (unsubscribe c) = ws c"
  by (simp add: unsubscribe_def send_def Let_def split: option.splits)

text \<open>
  Claim C4, as stated, fails: \<^verbatim>\<open>disconnect()\<close> only calls \<^verbatim>\<open>close()\<close> on the socket.
  For a connected, acknowledged client with a registered callback, no \<^verbatim>\<open>stop\<close>
  frame is sent, and the \<^verbatim>\<open>close\<close> event that follows is handled like any loss
  of the transport: a reconnection is scheduled after 2000 ms and, when the
  timer expires, a new socket is opened.
\<close>

theorem disconnect_reconnects_counterexample:
  "filter is_stop (wire (disconnect subscribed_client)) = []
   \<and> scheduled (client_run [Ev_close, Ev_timeout 0] (disconnect subscribed_client)) = [2000]
   \<and> ws (client_run [Ev_close, Ev_timeout 0] (disconnect subscribed_client)) = Some new_WebSocket"
  by (simp add: subscribed_client_def connection_ack_def subscribe_def disconnect_def
                connect_def new_GraphQLWebSocketClient_def new_WebSocket_def ws_close_def
                onopen_def send_def transmit_def handleMessage_def startSubscription_def
                onclose_def attemptReconnect_def Let_def)

text \<open>
  Claim C4, amended. The client's \<^verbatim>\<open>disconnect()\<close> sends nothing and starts closing
  the socket if there is one. It does not suppress reconnection: the \<^verbatim>\<open>close\<close>
  event that follows sets a reconnection timer of 2000 ms times the next
  attempt number whenever the attempt counter is below its maximum. The \<^verbatim>\<open>stop\<close>
  frame is sent by the owner: \<^verbatim>\<open>ComponentDisplaySystem.disconnect()\<close> first runs
  the stored unsubscribe closure, which sends \<^verbatim>\<open>stop\<close> when the client is connected
  and its socket open, and only then closes the socket.
\<close>

theorem disconnect_behaviour:
  "wire (disconnect c) = wire c
   \<and> ws (disconnect c) = map_option ws_close (ws c)
   \<and> scheduled (client_step Ev_close (disconnect c))
       = scheduled c @ (if ws c \<noteq> None \<and> reconnectAttempts c < maxReconnectAttempts c
                        then [2000 * (reconnectAttempts c + 1)] else [])
   \<and> wire (graphqlClient (display_disconnect ds))
       = wire (graphqlClient ds) @
           (if subscriptionCleanup ds \<and> connected (graphqlClient ds) \<and> socket_open (graphqlClient ds)
            then [Stop ''renderer-subscription''] else [])
   \<and> ws (graphqlClient (display_disconnect ds)) = map_option ws_close (ws (graphqlClient ds))"
proof -
  have a: "scheduled (client_step Ev_close (disconnect c))
             = scheduled c @ (if ws c \<noteq> None \<and> reconnectAttempts c < maxReconnectAttempts c
                              then [2000 * (reconnectAttempts c + 1)] else [])"
    by (auto simp: disconnect_def onclose_def attemptReconnect_def Let_def split: option.splits)
  have b: "wire (graphqlClient (display_disconnect ds))
             = wire (graphqlClient ds) @
                 (if subscriptionCleanup ds \<and> connected (graphqlClient ds)
                     \<and> socket_open (graphqlClient ds)
                  then [Stop ''renderer-subscription''] else [])"
    by (simp add: display_disconnect_def Let_def wire_disconnect wire_unsubscribe)
  have c: "ws (graphqlClient (display_disconnect ds)) = map_option ws_close (ws (graphqlClient ds))"
    by (simp add: display_disconnect_def Let_def ws_disconnect ws_unsubscribe)
  from wire_disconnect [of c] ws_disconnect [of c] a b c show ?thesis by blast
qed

section \<open>The ingress adapter\<close>

text \<open>
  Claim C8. The claim has \<^verbatim>\<open>POST /render\<close> reject a request whose type is absent.
  The handler does not: it never looks at what it destructured from the body.
  For the request body \<^verbatim>\<open>{"data": {}}\<close> it answers \<^verbatim>\<open>success: true\<close> with a
  component whose type is \<^verbatim>\<open>undefined\<close>, stores that component and publishes it.
  The GraphQL mutation next to it takes \<^verbatim>\<open>type: ComponentType!\<close> and so refuses
  the same input, and the schema declares \<^verbatim>\<open>Component.type\<close> non-null.
\<close>

theorem render_accepts_request_without_type:
  "success (fst (post_render ''u1'' ''2024-01-01T00:00:00.000Z''
                   \<lparr>req_type = None, req_data = Some (JObj [])\<rparr> new_ComponentRegistry)) = True
   \<and> type (res_component (fst (post_render ''u1'' ''2024-01-01T00:00:00.000Z''
                   \<lparr>req_type = None, req_data = Some (JObj [])\<rparr> new_ComponentRegistry))) = None
   \<and> getComponents (snd (post_render ''u1'' ''2024-01-01T00:00:00.000Z''
                   \<lparr>req_type = None, req_data = Some (JObj [])\<rparr> new_ComponentRegistry))
       = [\<lparr>id' = ''u1'', type = None, data = Some (JObj []),
           createdAt = ''2024-01-01T00:00:00.000Z''\<rparr>]
   \<and> emitted (pubsub (snd (post_render ''u1'' ''2024-01-01T00:00:00.000Z''
                   \<lparr>req_type = None, req_data = Some (JObj [])\<rparr> new_ComponentRegistry)))
       = [(''COMPONENT_UPDATE'', (''componentUpdate'',
            \<lparr>id' = ''u1'', type = None, data = Some (JObj []),
             createdAt = ''2024-01-01T00:00:00.000Z''\<rparr>))]"
  by (simp add: post_render_def renderComponent_def new_ComponentRegistry_def new_PubSub_def
                publish_def getComponents_def map_values_def Let_def)

section \<open>Queues of the broker\<close>

lemma render_all_Cons:
  "render_all (call # calls) r
     = render_all calls
         (snd (renderComponent (fst call) (fst (snd call)) (fst (snd (snd call)))
                 (snd (snd (snd call))) r))"
  by (cases call) (simp add: render_all_def)

lemma minted_eq:
  "minted call = \<lparr>id' = fst call, type = fst (snd (snd call)),
                  data = snd (snd (snd call)), createdAt = fst (snd call)\<rparr>"
  by (cases call) (simp add: minted_def)

lemma length_publish: "length (iterators (publish t p ps)) = length (iterators ps)"
  by (simp add: publish_def)

lemma nth_publish:
  "i < length (iterators ps) \<Longrightarrow> iterators (publish t p ps) ! i = pushValue t p (iterators ps ! i)"
  by (simp add: publish_def)

lemma length_pull: "length (iterators (pull j ps)) = length (iterators ps)"
  by (simp add: pull_def)

lemma nth_pull:
  "i < length (iterators ps) \<Longrightarrow>
   iterators (pull j ps) ! i
     = (if j = i then iterator_next (iterators ps ! i) else iterators ps ! i)"
  by (simp add: pull_def nth_list_update)

lemma length_iterate:
  "length (iterators (snd (asyncIterableIterator t ps))) = Suc (length (iterators ps))"
  by (simp add: asyncIterableIterator_def)

lemma nth_iterate:
  "i < length (iterators ps) \<Longrightarrow>
   iterators (snd (asyncIterableIterator t ps)) ! i = iterators ps ! i"
  by (simp add: asyncIterableIterator_def nth_append)

lemma pushValue_attached:
  assumes "listening it" and "trigger it = t"
      and "pullQueue it = 0 \<or> pushQueue it = []"
  shows "listening (pushValue t' p it) \<and> trigger (pushValue t' p it) = t
         \<and> (pullQueue (pushValue t' p it) = 0 \<or> pushQueue (pushValue t' p it) = [])
         \<and> yielded (pushValue t' p it) @ pushQueue (pushValue t' p it)
             = yielded it @ pushQueue it @ (if t' = t then [p] else [])"
  using assms by (auto simp: pushValue_def)

lemma next_attached:
  assumes "listening it" and "trigger it = t"
      and "pullQueue it = 0 \<or> pushQueue it = []"
  shows "listening (iterator_next it) \<and> trigger (iterator_next it) = t
         \<and> (pullQueue (iterator_next it) = 0 \<or> pushQueue (iterator_next it) = [])
         \<and> yielded (iterator_next it) @ pushQueue (iterator_next it)
             = yielded it @ pushQueue it"
  using assms by (auto simp: iterator_next_def pullValue_def split: list.splits)

lemma published_on_Cons: "published_on t (op # ops) = published_on t [op] @ published_on t ops"
  by (cases op) simp_all

lemma attached_step:
  assumes "attached t i ps"
  shows "attached t i (broker_step op ps)
         \<and> seen i (broker_step op ps) = seen i ps @ published_on t [op]"
proof -
  from assms have i: "i < length (iterators ps)"
    and l: "listening (iterators ps ! i)"
    and tr: "trigger (iterators ps ! i) = t"
    and q: "pullQueue (iterators ps ! i) = 0 \<or> pushQueue (iterators ps ! i) = []"
    unfolding attached_def by blast+
  show ?thesis
  proof (cases op)
    case (Publish t' p)
    from pushValue_attached [OF l tr q, of t' p] i show ?thesis
      unfolding Publish attached_def seen_def
      by (simp add: nth_publish length_publish)
  next
    case (Iterate t')
    from i l tr q show ?thesis
      unfolding Iterate attached_def seen_def
      by (simp add: nth_iterate length_iterate)
  next
    case (Pull j)
    from next_attached [OF l tr q] i l tr q show ?thesis
      unfolding Pull attached_def seen_def
      by (simp add: nth_pull length_pull)
  qed
qed

lemma attached_run:
  "attached t i ps \<Longrightarrow>
   attached t i (broker_run ops ps)
   \<and> seen i (broker_run ops ps) = seen i ps @ published_on t ops"
proof (induction ops arbitrary: ps)
  case Nil
  then show ?case by simp
next
  case (Cons op ops)
  note s = attached_step [OF Cons.prems, of op]
  then have a: "attached t i (broker_step op ps)" by blast
  from Cons.IH [OF a] s published_on_Cons [of t op ops] show ?case by simp
qed

lemma fresh_step:
  assumes "i < length (iterators ps)"
      and "iterators ps ! i
             = \<lparr>trigger = t, listening = False, pullQueue = 0, pushQueue = [], yielded = []\<rparr>"
      and "op \<noteq> Pull i"
  shows "i < length (iterators (broker_step op ps))
         \<and> iterators (broker_step op ps) ! i
             = \<lparr>trigger = t, listening = False, pullQueue = 0, pushQueue = [], yielded = []\<rparr>"
  using assms
  by (cases op)
     (simp_all add: nth_publish length_publish nth_iterate length_iterate nth_pull length_pull
                    pushValue_def)

lemma fresh_pull:
  assumes "i < length (iterators ps)"
      and "iterators ps ! i
             = \<lparr>trigger = t, listening = False, pullQueue = 0, pushQueue = [], yielded = []\<rparr>"
  shows "attached t i (pull i ps) \<and> seen i (pull i ps) = []"
  using assms
  by (simp add: attached_def seen_def nth_pull length_pull iterator_next_def pullValue_def)

lemma fresh_run:
  "i < length (iterators ps) \<Longrightarrow>
   iterators ps ! i
     = \<lparr>trigger = t, listening = False, pullQueue = 0, pushQueue = [], yielded = []\<rparr> \<Longrightarrow>
   seen i (broker_run ops ps) = published_on t (after_first_pull i ops)"
proof (induction ops arbitrary: ps)
  case Nil
  then show ?case by (simp add: seen_def)
next
  case (Cons op ops)
  show ?case
  proof (cases "op = Pull i")
    case True
    from fresh_pull [OF Cons.prems] have a: "attached t i (pull i ps)"
      and e: "seen i (pull i ps) = []" by blast+
    from attached_run [OF a, of ops] e show ?thesis
      unfolding True by simp
  next
    case False
    note f = fresh_step [OF Cons.prems False]
    from f have i: "i < length (iterators (broker_step op ps))" by blast
    from f have r: "iterators (broker_step op ps) ! i
                      = \<lparr>trigger = t, listening = False, pullQueue = 0, pushQueue = [],
                         yielded = []\<rparr>" by blast
    from False have "after_first_pull i (op # ops) = after_first_pull i ops"
      by (cases op) auto
    with Cons.IH [OF i r] show ?thesis by simp
  qed
qed

lemma fresh_iterate:
  "fst (asyncIterableIterator t ps) < length (iterators (snd (asyncIterableIterator t ps)))
   \<and> iterators (snd (asyncIterableIterator t ps)) ! fst (asyncIterableIterator t ps)
       = \<lparr>trigger = t, listening = False, pullQueue = 0, pushQueue = [], yielded = []\<rparr>"
  by (simp add: asyncIterableIterator_def)

lemma test_component_eq:
  "post_test_subscription ms now r
     = r\<lparr>pubsub := publish ''COMPONENT_UPDATE'' (''componentUpdate'', test_component ms now)
                      (pubsub r)\<rparr>"
  by (simp add: post_test_subscription_def test_component_def)

lemma pubsub_registry_step:
  "pubsub (registry_step op r) = broker_step (broker_op_of op) (pubsub r)"
proof (cases op)
  case (Render call)
  then show ?thesis
    by (cases call) (simp add: renderComponent_def minted_def Let_def)
next
  case (Test_subscription ms now)
  then show ?thesis by (simp add: test_component_eq)
next
  case Subscribe
  then show ?thesis by (simp add: componentUpdate_subscribe_def split: prod.splits)
next
  case (Next i)
  then show ?thesis by simp
qed

lemma pubsub_registry_run:
  "pubsub (registry_run ops r) = broker_run (map broker_op_of ops) (pubsub r)"
  by (induction ops arbitrary: r) (simp_all add: pubsub_registry_step)

lemma subscribe_registry:
  "componentUpdate_subscribe reg
     = (fst (asyncIterableIterator ''COMPONENT_UPDATE'' (pubsub reg)),
        reg\<lparr>pubsub := snd (asyncIterableIterator ''COMPONENT_UPDATE'' (pubsub reg))\<rparr>)"
  by (simp add: componentUpdate_subscribe_def split: prod.splits)

lemma subscribe_daemon:
  "rendererUpdate_subscribe d
     = (fst (asyncIterableIterator ''RENDERER_UPDATE'' (pubsub d)),
        d\<lparr>pubsub := snd (asyncIterableIterator ''RENDERER_UPDATE'' (pubsub d))\<rparr>)"
  by (simp add: rendererUpdate_subscribe_def split: prod.splits)

text \<open>
  Claim C6. A subscription creates an iterator with an empty queue that has
  been handed nothing, whatever was published or stored before; the resolvers
  of the Registry and of the Daemon do nothing but create it, and do not touch
  the history. Whatever the broker goes through afterwards, all that the
  iterator is ever handed or has queued are the events published on its topic
  after its consumer's first pull, in the order of their publication; so it
  never receives an event published before the subscription.
\<close>

theorem subscribe_no_replay:
  "iterators (snd (asyncIterableIterator t ps)) ! fst (asyncIterableIterator t ps)
     = \<lparr>trigger = t, listening = False, pullQueue = 0, pushQueue = [], yielded = []\<rparr>
   \<and> seen (fst (asyncIterableIterator t ps)) (broker_run ops (snd (asyncIterableIterator t ps)))
       = published_on t (after_first_pull (fst (asyncIterableIterator t ps)) ops)
   \<and> componentUpdate_subscribe reg
       = (fst (asyncIterableIterator ''COMPONENT_UPDATE'' (pubsub reg)),
          reg\<lparr>pubsub := snd (asyncIterableIterator ''COMPONENT_UPDATE'' (pubsub reg))\<rparr>)
   \<and> seen (fst (componentUpdate_subscribe reg))
           (pubsub (registry_run rops (snd (componentUpdate_subscribe reg))))
       = published_on ''COMPONENT_UPDATE''
           (after_first_pull (fst (componentUpdate_subscribe reg)) (map broker_op_of rops))
   \<and> rendererUpdate_subscribe d
       = (fst (asyncIterableIterator ''RENDERER_UPDATE'' (pubsub d)),
          d\<lparr>pubsub := snd (asyncIterableIterator ''RENDERER_UPDATE'' (pubsub d))\<rparr>)"
proof -
  note f = fresh_iterate [of t ps]
  from f have i: "fst (asyncIterableIterator t ps)
                    < length (iterators (snd (asyncIterableIterator t ps)))" by blast
  from f have r: "iterators (snd (asyncIterableIterator t ps)) ! fst (asyncIterableIterator t ps)
                    = \<lparr>trigger = t, listening = False, pullQueue = 0, pushQueue = [],
                       yielded = []\<rparr>" by blast
  note a = fresh_run [OF i r, of ops]
  note g = fresh_iterate [of "''COMPONENT_UPDATE''" "pubsub reg"]
  from g have gi: "fst (asyncIterableIterator ''COMPONENT_UPDATE'' (pubsub reg))
                     < length (iterators (snd (asyncIterableIterator ''COMPONENT_UPDATE''
                                                 (pubsub reg))))" by blast
  from g have gr: "iterators (snd (asyncIterableIterator ''COMPONENT_UPDATE'' (pubsub reg)))
                     ! fst (asyncIterableIterator ''COMPONENT_UPDATE'' (pubsub reg))
                     = \<lparr>trigger = ''COMPONENT_UPDATE'', listening = False, pullQueue = 0,
                        pushQueue = [], yielded = []\<rparr>" by blast
  have b: "seen (fst (componentUpdate_subscribe reg))
             (pubsub (registry_run rops (snd (componentUpdate_subscribe reg))))
           = published_on ''COMPONENT_UPDATE''
               (after_first_pull (fst (componentUpdate_subscribe reg)) (map broker_op_of rops))"
    using fresh_run [OF gi gr, of "map broker_op_of rops"]
    by (simp add: subscribe_registry pubsub_registry_run)
  from r a b subscribe_registry [of reg] subscribe_daemon [of d] show ?thesis by blast
qed

lemma queue_renders:
  "attached ''COMPONENT_UPDATE'' i (pubsub r) \<Longrightarrow>
   pullQueue (iterators (pubsub r) ! i) = 0 \<Longrightarrow>
   queue_of i (pubsub (registry_run (map Render calls) r))
     = queue_of i (pubsub r) @ map (\<lambda>call. (''componentUpdate'', minted call)) calls
   \<and> yielded (iterators (pubsub (registry_run (map Render calls) r)) ! i)
     = yielded (iterators (pubsub r) ! i)"
proof (induction calls arbitrary: r)
  case Nil
  then show ?case by simp
next
  case (Cons call calls)
  define r' where "r' = registry_step (Render call) r"
  from Cons.prems(1) have i: "i < length (iterators (pubsub r))"
    and l: "listening (iterators (pubsub r) ! i)"
    and t: "trigger (iterators (pubsub r) ! i) = ''COMPONENT_UPDATE''"
    unfolding attached_def by blast+
  have it: "iterators (pubsub r') ! i
              = (iterators (pubsub r) ! i)
                  \<lparr>pushQueue := pushQueue (iterators (pubsub r) ! i)
                                   @ [(''componentUpdate'', minted call)]\<rparr>"
    unfolding r'_def pubsub_registry_step
    using i l t Cons.prems(2) by (simp add: nth_publish pushValue_def)
  have len: "length (iterators (pubsub r')) = length (iterators (pubsub r))"
    unfolding r'_def pubsub_registry_step by (simp add: length_publish)
  have a: "attached ''COMPONENT_UPDATE'' i (pubsub r')"
    using i l t Cons.prems(2) by (simp add: attached_def it len)
  have z: "pullQueue (iterators (pubsub r') ! i) = 0"
    using Cons.prems(2) by (simp add: it)
  have run: "registry_run (map Render (call # calls)) r = registry_run (map Render calls) r'"
    unfolding r'_def by simp
  from Cons.IH [OF a z] show ?case
    unfolding run by (simp add: queue_of_def it)
qed

lemma caught_up_iterators:
  "iterators (pubsub caught_up)
     = [\<lparr>trigger = ''COMPONENT_UPDATE'', listening = True, pullQueue = 0, pushQueue = [],
         yielded = [(''componentUpdate'', minted (nth_call 0))]\<rparr>]"
  by (simp add: caught_up_def new_ComponentRegistry_def new_PubSub_def
                componentUpdate_subscribe_def asyncIterableIterator_def pull_def
                iterator_next_def pullValue_def renderComponent_def publish_def
                pushValue_def Let_def nth_call_def minted_def)

lemma caught_up_attached:
  "attached ''COMPONENT_UPDATE'' 0 (pubsub caught_up)
   \<and> pullQueue (iterators (pubsub caught_up) ! 0) = 0"
  by (simp add: attached_def caught_up_iterators)

lemma backlogged_eq:
  "backlogged = registry_run (map Render (map nth_call [1..<257])) caught_up"
proof -
  have "[0..<257] = 0 # [Suc 0..<257]"
    by (rule upt_conv_Cons) simp
  then show ?thesis
    by (simp add: backlogged_def caught_up_def comp_def)
qed

lemma backlogged_queue:
  "queue_of 0 (pubsub backlogged)
     = map (\<lambda>call. (''componentUpdate'', minted call)) (map nth_call [1..<257])
   \<and> yielded (iterators (pubsub backlogged) ! 0) = [(''componentUpdate'', minted (nth_call 0))]
   \<and> attached ''COMPONENT_UPDATE'' 0 (pubsub backlogged)"
proof -
  from caught_up_attached have a: "attached ''COMPONENT_UPDATE'' 0 (pubsub caught_up)"
    and z: "pullQueue (iterators (pubsub caught_up) ! 0) = 0" by blast+
  note q = queue_renders [OF a z, of "map nth_call [1..<257]"]
  from a have "attached ''COMPONENT_UPDATE'' 0
                 (broker_run (map broker_op_of (map Render (map nth_call [1..<257])))
                    (pubsub caught_up))"
    using attached_run by blast
  then have "attached ''COMPONENT_UPDATE'' 0 (pubsub backlogged)"
    by (simp only: backlogged_eq pubsub_registry_run)
  with q show ?thesis
    by (simp add: backlogged_eq queue_of_def caught_up_iterators)
qed

text \<open>
  Claim C1, as stated, fails: the broker has no capacity bound and no counter
  of dropped events. A subscriber whose consumer has pulled once and then
  fallen behind, so that its queue already holds 256 events (the bound the
  specification gives as its default), gets the next event appended: the queue
  then holds 257 events, its head is still the oldest one, and it differs from
  what dropping the oldest would leave.
\<close>

theorem full_queue_counterexample:
  "length (queue_of 0 (pubsub backlogged)) = 256
   \<and> queue_of 0 (pubsub (snd (renderComponent ''new'' ''2024-01-02T00:00:00.000Z''
                               (Some (JStr ''CARD'')) None backlogged)))
       = queue_of 0 (pubsub backlogged) @
           [(''componentUpdate'',
             \<lparr>id' = ''new'', type = Some (JStr ''CARD''), data = None,
              createdAt = ''2024-01-02T00:00:00.000Z''\<rparr>)]
   \<and> queue_of 0 (pubsub (snd (renderComponent ''new'' ''2024-01-02T00:00:00.000Z''
                               (Some (JStr ''CARD'')) None backlogged)))
       \<noteq> spec_enqueue_drop_oldest 256
           (''componentUpdate'',
            \<lparr>id' = ''new'', type = Some (JStr ''CARD''), data = None,
             createdAt = ''2024-01-02T00:00:00.000Z''\<rparr>)
           (queue_of 0 (pubsub backlogged))
   \<and> hd (queue_of 0 (pubsub (snd (renderComponent ''new'' ''2024-01-02T00:00:00.000Z''
                               (Some (JStr ''CARD'')) None backlogged))))
       = (''componentUpdate'', minted (nth_call 1))"
proof -
  let ?p = "(''componentUpdate'',
             \<lparr>id' = ''new'', type = Some (JStr ''CARD''), data = None,
              createdAt = ''2024-01-02T00:00:00.000Z''\<rparr>)"
  let ?q = "queue_of 0 (pubsub backlogged)"
  let ?q' = "queue_of 0 (pubsub (snd (renderComponent ''new'' ''2024-01-02T00:00:00.000Z''
                               (Some (JStr ''CARD'')) None backlogged)))"
  note b = backlogged_queue
  have len: "length ?q = 256"
    using b by simp
  have "[1..<257] = 1 # [Suc 1..<257]"
    by (rule upt_conv_Cons) simp
  then have hd: "hd ?q = (''componentUpdate'', minted (nth_call 1))"
    using b by simp
  from b have a: "attached ''COMPONENT_UPDATE'' 0 (pubsub backlogged)" by blast
  from len have ne0: "pushQueue (iterators (pubsub backlogged) ! 0) \<noteq> []"
    by (auto simp: queue_of_def)
  with a have z: "pullQueue (iterators (pubsub backlogged) ! 0) = 0"
    unfolding attached_def by blast
  from a have i: "0 < length (iterators (pubsub backlogged))"
    and l: "listening (iterators (pubsub backlogged) ! 0)"
    and t: "trigger (iterators (pubsub backlogged) ! 0) = ''COMPONENT_UPDATE''"
    unfolding attached_def by blast+
  have app: "?q' = ?q @ [?p]"
    using i l t z
    by (simp add: queue_of_def renderComponent_def Let_def nth_publish pushValue_def)
  have spec: "spec_enqueue_drop_oldest 256 ?p ?q = tl ?q @ [?p]"
    by (simp add: spec_enqueue_drop_oldest_def len)
  have "length ?q' = 257" by (simp add: app len)
  moreover have "length (spec_enqueue_drop_oldest 256 ?p ?q) = 256"
    by (simp add: spec len)
  ultimately have ne: "?q' \<noteq> spec_enqueue_drop_oldest 256 ?p ?q"
    by auto
  from len have "?q \<noteq> []" by auto
  then have "hd ?q' = hd ?q" by (simp add: app)
  with hd len app ne show ?thesis by simp
qed

text \<open>
  Claim C1, amended. A publish reaches every subscriber of the topic whose
  iterator is attached to the broker, that is, has been pulled at least once:
  the event is handed to the subscriber's pending pull if there is one, and is
  appended to its queue otherwise. The queue has no capacity bound and nothing
  is ever discarded from it: whatever publishes and pulls follow, what the
  subscriber has been handed together with what it has queued is what it had
  before followed by every event published on the topic since, in order; with
  no pull in between, the queue grows by every event published. There is no
  dropped-event counter. The publisher gets its component back and no error.
\<close>

theorem publish_never_discards:
  "(attached t i ps \<longrightarrow>
      attached t i (broker_run ops ps)
      \<and> seen i (broker_run ops ps) = seen i ps @ published_on t ops)
   \<and> (attached ''COMPONENT_UPDATE'' i (pubsub r) \<longrightarrow>
        seen i (pubsub (registry_run rops r))
          = seen i (pubsub r) @ published_on ''COMPONENT_UPDATE'' (map broker_op_of rops))
   \<and> (attached ''COMPONENT_UPDATE'' i (pubsub r) \<and> pullQueue (iterators (pubsub r) ! i) = 0 \<longrightarrow>
        queue_of i (pubsub (registry_run (map Render calls) r))
          = queue_of i (pubsub r) @ map (\<lambda>call. (''componentUpdate'', minted call)) calls)
   \<and> fst (renderComponent uuid now ty dat reg)
       = \<lparr>id' = uuid, type = ty, data = dat, createdAt = now\<rparr>"
proof -
  have a: "attached t i ps \<longrightarrow>
             attached t i (broker_run ops ps)
             \<and> seen i (broker_run ops ps) = seen i ps @ published_on t ops"
    using attached_run by blast
  have b: "attached ''COMPONENT_UPDATE'' i (pubsub r) \<longrightarrow>
             seen i (pubsub (registry_run rops r))
               = seen i (pubsub r) @ published_on ''COMPONENT_UPDATE'' (map broker_op_of rops)"
    using attached_run [of "''COMPONENT_UPDATE''" i "pubsub r" "map broker_op_of rops"]
    by (simp add: pubsub_registry_run)
  have c: "attached ''COMPONENT_UPDATE'' i (pubsub r) \<and> pullQueue (iterators (pubsub r) ! i) = 0 \<longrightarrow>
             queue_of i (pubsub (registry_run (map Render calls) r))
               = queue_of i (pubsub r) @ map (\<lambda>call. (''componentUpdate'', minted call)) calls"
    using queue_renders by blast
  have d: "fst (renderComponent uuid now ty dat reg)
             = \<lparr>id' = uuid, type = ty, data = dat, createdAt = now\<rparr>"
    by (simp add: renderComponent_def Let_def)
  from a b c d show ?thesis by blast
qed

theorem publish_never_discards_witness:
  "attached ''COMPONENT_UPDATE'' 0 (pubsub caught_up)
   \<and> pullQueue (iterators (pubsub caught_up) ! 0) = 0
   \<and> seen 0 (pubsub (registry_run [Render (nth_call 1), Next 0, Render (nth_call 2)] caught_up))
       = [(''componentUpdate'', minted (nth_call 0)), (''componentUpdate'', minted (nth_call 1)),
          (''componentUpdate'', minted (nth_call 2))]
   \<and> queue_of 0 (pubsub (registry_run (map Render [nth_call 1, nth_call 2]) caught_up))
       = [(''componentUpdate'', minted (nth_call 1)), (''componentUpdate'', minted (nth_call 2))]"
proof -
  note h = caught_up_attached
  have s: "seen 0 (pubsub caught_up) = [(''componentUpdate'', minted (nth_call 0))]"
    and q: "queue_of 0 (pubsub caught_up) = []"
    by (simp_all add: seen_def queue_of_def caught_up_iterators)
  from publish_never_discards
         [of "''COMPONENT_UPDATE''" 0 "pubsub caught_up" "[]" caught_up
             "[Render (nth_call 1), Next 0, Render (nth_call 2)]" "[nth_call 1, nth_call 2]"
             "''u''" "''t''" None None new_ComponentRegistry]
       h s q
  show ?thesis by simp
qed

section \<open>Identity of events\<close>

lemma emitted_render_all:
  "emitted (pubsub (render_all calls r))
     = emitted (pubsub r) @
         map (\<lambda>call. (''COMPONENT_UPDATE'', (''componentUpdate'', minted call))) calls"
proof (induction calls arbitrary: r)
  case Nil
  then show ?case by (simp add: render_all_def)
next
  case (Cons call calls)
  show ?case
    unfolding render_all_Cons
    by (simp add: Cons.IH renderComponent_def publish_def Let_def minted_eq)
qed

lemma emitted_daemon_step_ext:
  "\<exists>xs. emitted (pubsub (daemon_step e d)) = emitted (pubsub d) @ xs"
proof (cases "\<exists>m. e = Ev_message m")
  case True
  then obtain m where e: "e = Ev_message m" by blast
  show ?thesis
    unfolding e pubsub_daemon_step_message
    by (auto simp: publish_def split: option.splits)
next
  case False
  from pubsub_daemon_step_other [OF False, of d] show ?thesis by simp
qed

lemma emitted_daemon_run_ext:
  "\<exists>xs. emitted (pubsub (daemon_run es d)) = emitted (pubsub d) @ xs"
proof (induction es arbitrary: d)
  case Nil
  then show ?case by simp
next
  case (Cons e es)
  from emitted_daemon_step_ext [of e d] obtain xs
    where xs: "emitted (pubsub (daemon_step e d)) = emitted (pubsub d) @ xs" by blast
  from Cons.IH [of "daemon_step e d"] obtain ys
    where "emitted (pubsub (daemon_run es (daemon_step e d)))
             = emitted (pubsub (daemon_step e d)) @ ys" by blast
  with xs show ?case by simp
qed

lemma delivered_client_step_ext: "\<exists>xs. delivered (client_step e c) = delivered c @ xs"
  by (cases e)
     (auto simp: onopen_def onclose_def onerror_def handleMessage_def startSubscription_def
                 send_def attemptReconnect_def connect_def Let_def
           split: option.splits)

lemma delivered_client_run_ext: "\<exists>xs. delivered (client_run es c) = delivered c @ xs"
proof (induction es arbitrary: c)
  case Nil
  then show ?case by simp
next
  case (Cons e es)
  from delivered_client_step_ext [of e c] obtain xs
    where xs: "delivered (client_step e c) = delivered c @ xs" by blast
  from Cons.IH [of "client_step e c"] obtain ys
    where "delivered (client_run es (client_step e c)) = delivered (client_step e c) @ ys"
    by blast
  with xs show ?case by simp
qed

text \<open>
  Claim C7, as stated, fails: the debug endpoint \<^verbatim>\<open>POST /test-subscription\<close> mints
  its event in place with the id \<^verbatim>\<open>'test-' + Date.now()\<close>, which is no UUID and
  is the same for two requests served within one millisecond. Both events are
  published.
\<close>

theorem test_endpoint_id_counterexample:
  "published_ids (pubsub
     (post_test_subscription ''1700000000000'' ''2023-11-14T22:13:20.000Z''
       (post_test_subscription ''1700000000000'' ''2023-11-14T22:13:20.000Z''
          new_ComponentRegistry)))
     = [''test-1700000000000'', ''test-1700000000000'']
   \<and> \<not> distinct (published_ids (pubsub
     (post_test_subscription ''1700000000000'' ''2023-11-14T22:13:20.000Z''
       (post_test_subscription ''1700000000000'' ''2023-11-14T22:13:20.000Z''
          new_ComponentRegistry))))"
  by (simp add: published_ids_def post_test_subscription_def new_ComponentRegistry_def
                new_PubSub_def publish_def)

text \<open>
  Claim C7, amended. Every event minted by \<^verbatim>\<open>renderComponent\<close> carries the id that
  \<^verbatim>\<open>uuidv4()\<close> returned and the time read during the call, so the events it
  publishes have pairwise distinct ids whenever \<^verbatim>\<open>uuidv4()\<close> returned distinct
  values. No operation changes an event once it exists: what has been handed
  to a broker, queued for a subscriber or delivered to the Renderer's callback
  stays as it is while later events are added behind it, and a history entry
  is only ever replaced by a later event of the same id.
\<close>

theorem events_minted_once_and_immutable:
  "fst (renderComponent uuid now ty dat r)
     = \<lparr>id' = uuid, type = ty, data = dat, createdAt = now\<rparr>
   \<and> (distinct (map fst calls) \<longrightarrow>
        distinct (published_ids (pubsub (render_all calls new_ComponentRegistry))))
   \<and> take (length (emitted (pubsub reg))) (emitted (pubsub (render_all calls reg)))
       = emitted (pubsub reg)
   \<and> take (length (emitted (pubsub d))) (emitted (pubsub (daemon_run es d))) = emitted (pubsub d)
   \<and> take (length (delivered c)) (delivered (client_run es c)) = delivered c
   \<and> take (length (pushQueue it)) (pushQueue (pushValue t p it)) = pushQueue it
   \<and> map_of (components (snd (renderComponent uuid now ty dat r))) k
       = (if k = uuid then Some \<lparr>id' = uuid, type = ty, data = dat, createdAt = now\<rparr>
          else map_of (components r) k)
   \<and> map_of (components (handleComponentFromRegistry c' d)) k
       = (if k = id' c' then Some c' else map_of (components d) k)"
proof -
  have a: "fst (renderComponent uuid now ty dat r)
             = \<lparr>id' = uuid, type = ty, data = dat, createdAt = now\<rparr>"
    by (simp add: renderComponent_def Let_def)
  have "published_ids (pubsub (render_all calls new_ComponentRegistry)) = map fst calls"
    by (simp add: published_ids_def emitted_render_all new_ComponentRegistry_def
                  new_PubSub_def comp_def minted_eq)
  then have b: "distinct (map fst calls) \<longrightarrow>
                  distinct (published_ids (pubsub (render_all calls new_ComponentRegistry)))"
    by simp
  have c: "take (length (emitted (pubsub reg))) (emitted (pubsub (render_all calls reg)))
             = emitted (pubsub reg)"
    by (simp add: emitted_render_all)
  from emitted_daemon_run_ext [of es d]
  have d: "take (length (emitted (pubsub d))) (emitted (pubsub (daemon_run es d)))
             = emitted (pubsub d)"
    by auto
  from delivered_client_run_ext [of es c]
  have e: "take (length (delivered c)) (delivered (client_run es c)) = delivered c"
    by auto
  have f: "take (length (pushQueue it)) (pushQueue (pushValue t p it)) = pushQueue it"
    by (simp add: pushValue_def)
  have g: "map_of (components (snd (renderComponent uuid now ty dat r))) k
             = (if k = uuid then Some \<lparr>id' = uuid, type = ty, data = dat, createdAt = now\<rparr>
                else map_of (components r) k)"
    by (simp add: renderComponent_def Let_def map_of_map_set)
  have h: "map_of (components (handleComponentFromRegistry c' d)) k
             = (if k = id' c' then Some c' else map_of (components d) k)"
    by (simp add: handleComponentFromRegistry_def Let_def map_of_map_set)
  from a b c d e f g h show ?thesis by blast
qed

theorem events_minted_once_and_immutable_witness:
  "distinct (map fst [nth_call 0, nth_call 1])
   \<and> distinct (published_ids (pubsub (render_all [nth_call 0, nth_call 1] new_ComponentRegistry)))"
proof -
  have h: "distinct (map fst [nth_call 0, nth_call 1])"
    by (simp add: nth_call_def)
  from events_minted_once_and_immutable
         [of "''u''" "''t''" None None new_ComponentRegistry "[nth_call 0, nth_call 1]"
             new_ComponentRegistry new_ComponentDaemon "[]" new_GraphQLWebSocketClient
             "\<lparr>trigger = ''COMPONENT_UPDATE'', listening = False, pullQueue = 0, pushQueue = [],
               yielded = []\<rparr>" "''COMPONENT_UPDATE''"
             "(''componentUpdate'', minted (nth_call 0))" "''u''" "minted (nth_call 0)"]
  have "distinct (map fst [nth_call 0, nth_call 1]) \<longrightarrow>
          distinct (published_ids (pubsub (render_all [nth_call 0, nth_call 1] new_ComponentRegistry)))"
    by (elim conjE)
  with h show ?thesis by blast
qed

end
